theory Spec2Isabelle
  imports Main "HOL-Library.AList"
begin

unbundle bit_operations_syntax

section \<open>Python values\<close>

text \<open>
  The script \<^verbatim>\<open>routes/portfolio/data_formatter.py\<close> reads \<^verbatim>\<open>atit.json\<close>, parses it with
  \<^verbatim>\<open>json.loads\<close>, stamps every element of \<^verbatim>\<open>data['portfolio']\<close> with its position,
  serialises the document with \<^verbatim>\<open>json.dumps\<close>, writes it back and prints it.

  A Python \<^verbatim>\<open>str\<close> is a sequence of Unicode code points, so text is a list of
  natural numbers here; \<open>str ''abc''\<close> is the text of an ASCII literal of the source.
\<close>

type_synonym pystr = "nat list"

definition ch :: "char \<Rightarrow> nat" where
  "ch c = of_char c"

definition str :: "string \<Rightarrow> pystr" where
  "str cs = map ch cs"

text \<open>
  The values \<^verbatim>\<open>json.loads\<close> builds: \<^verbatim>\<open>None\<close>, \<^verbatim>\<open>True\<close>/\<^verbatim>\<open>False\<close>, \<^verbatim>\<open>int\<close>
  (unbounded), \<^verbatim>\<open>float\<close>, \<^verbatim>\<open>str\<close>, \<^verbatim>\<open>list\<close> and \<^verbatim>\<open>dict\<close>. A \<^verbatim>\<open>dict\<close> keeps
  its keys in insertion order, so it is an association list; \<open>AList.update\<close> is
  \<^verbatim>\<open>d[k] = v\<close>: an existing key keeps its place and gets the new value, a new key goes
  to the end. The finite floats are a type parameter \<open>'f\<close>: the script never computes
  with them, it only parses and prints them.
\<close>

datatype 'f pyfloat = NaN | PosInf | NegInf | Finite 'f

datatype 'f pyval =
    PyNone
  | PyBool bool
  | PyInt int
  | PyFloat "'f pyfloat"
  | PyStr pystr
  | PyList "'f pyval list"
  | PyDict "(pystr \<times> 'f pyval) list"

text \<open>
  The exceptions the script can end with. \<open>OutOfFuel\<close> is not a Python exception: it
  marks a parser run that used up its recursion budget (see \<open>json_loads\<close>).
\<close>

datatype pyerr = FileNotFoundError | JSONDecodeError | KeyError | TypeError | OutOfFuel

subsection \<open>Subscription, iteration and item assignment\<close>

text \<open>\<^verbatim>\<open>obj[key]\<close> for a \<^verbatim>\<open>str\<close> key: only a \<^verbatim>\<open>dict\<close> can be subscripted with a
  string (\<^verbatim>\<open>KeyError\<close> when the key is absent); a list, a string and every scalar raise
  \<^verbatim>\<open>TypeError\<close>.\<close>

fun getitem :: "'f pyval \<Rightarrow> pystr \<Rightarrow> pyerr + 'f pyval" where
  "getitem (PyDict kvs) k = (case map_of kvs k of None \<Rightarrow> Inl KeyError | Some v \<Rightarrow> Inr v)"
| "getitem _ k = Inl TypeError"

text \<open>What \<^verbatim>\<open>enumerate(obj)\<close> runs over: the elements of a list, the keys of a
  \<^verbatim>\<open>dict\<close>, the one-character strings of a \<^verbatim>\<open>str\<close>; any other value is not iterable
  (\<^verbatim>\<open>TypeError\<close>).\<close>

fun py_iter :: "'f pyval \<Rightarrow> pyerr + 'f pyval list" where
  "py_iter (PyList xs) = Inr xs"
| "py_iter (PyDict kvs) = Inr (map (\<lambda>kv. PyStr (fst kv)) kvs)"
| "py_iter (PyStr s) = Inr (map (\<lambda>c. PyStr [c]) s)"
| "py_iter _ = Inl TypeError"

text \<open>\<^verbatim>\<open>obj[key] = v\<close> for a \<^verbatim>\<open>str\<close> key: a \<^verbatim>\<open>dict\<close> stores the value; a list (indices
  must be integers), a string and every scalar (no item assignment) raise
  \<^verbatim>\<open>TypeError\<close>.\<close>

fun setitem :: "'f pyval \<Rightarrow> pystr \<Rightarrow> 'f pyval \<Rightarrow> pyerr + 'f pyval" where
  "setitem (PyDict kvs) k v = Inr (PyDict (AList.update k v kvs))"
| "setitem _ k v = Inl TypeError"

section \<open>The reindex loop\<close>

text \<open>
  \<^verbatim>\<open>
  for i, item in enumerate(data['portfolio']):
      item['id'] = i
  \<close>
  The loop mutates each \<^verbatim>\<open>item\<close> in place. \<^verbatim>\<open>json.loads\<close> builds a tree (no object
  occurs twice in it), so the mutation of one element is seen nowhere else and the loop
  is the list of the updated elements. The first element that refuses the assignment
  ends the loop with its exception.
\<close>

fun reindex_loop :: "nat \<Rightarrow> 'f pyval list \<Rightarrow> pyerr + 'f pyval list" where
  "reindex_loop i [] = Inr []"
| "reindex_loop i (item # rest) =
     (case setitem item (str ''id'') (PyInt (int i)) of
        Inl e \<Rightarrow> Inl e
      | Inr item' \<Rightarrow>
          (case reindex_loop (Suc i) rest of
             Inl e \<Rightarrow> Inl e
           | Inr rest' \<Rightarrow> Inr (item' # rest')))"

text \<open>
  The document after the loop. When \<^verbatim>\<open>data['portfolio']\<close> is a list, the elements the
  loop mutated are the elements of that list, which stays where it is in \<^verbatim>\<open>data\<close>.
  When it is a \<^verbatim>\<open>dict\<close> or a \<^verbatim>\<open>str\<close>, the loop ran over keys or characters, which are
  strings: no assignment can have succeeded and \<^verbatim>\<open>data\<close> is as it was.
\<close>

fun write_back :: "'f pyval \<Rightarrow> 'f pyval \<Rightarrow> 'f pyval list \<Rightarrow> 'f pyval" where
  "write_back (PyDict kvs) (PyList xs) items' =
     PyDict (AList.update (str ''portfolio'') (PyList items') kvs)"
| "write_back data p items' = data"

definition reindex :: "'f pyval \<Rightarrow> pyerr + 'f pyval" where
  "reindex data =
     (case getitem data (str ''portfolio'') of
        Inl e \<Rightarrow> Inl e
      | Inr p \<Rightarrow>
          (case py_iter p of
             Inl e \<Rightarrow> Inl e
           | Inr items \<Rightarrow>
               (case reindex_loop 0 items of
                  Inl e \<Rightarrow> Inl e
                | Inr items' \<Rightarrow> Inr (write_back data p items'))))"

section \<open>json.dumps\<close>

text \<open>
  \<^verbatim>\<open>json.dumps(data)\<close> with its defaults: \<^verbatim>\<open>ensure_ascii=True\<close>, \<^verbatim>\<open>allow_nan=True\<close>,
  no indentation, the separators \<^verbatim>\<open>', '\<close> and \<^verbatim>\<open>': '\<close>, keys in the order of the
  \<^verbatim>\<open>dict\<close>. The definitions follow \<^verbatim>\<open>json/encoder.py\<close> of the Python standard
  library. \<^verbatim>\<open>float.__repr__\<close> is the parameter \<open>float_repr\<close>.
\<close>

definition quote :: nat where
  "quote = ch CHR ''\"''"

definition backslash :: nat where
  "backslash = ch (CHR 0x5C)"

text \<open>\<^verbatim>\<open>int.__repr__\<close>: the decimal digits, with a minus sign for a negative number.\<close>

fun nat_repr :: "nat \<Rightarrow> pystr" where
  "nat_repr n = (if n < 10 then [ch CHR ''0'' + n]
                 else nat_repr (n div 10) @ [ch CHR ''0'' + n mod 10])"

declare nat_repr.simps [simp del]

definition int_repr :: "int \<Rightarrow> pystr" where
  "int_repr i = (if i < 0 then ch CHR ''-'' # nat_repr (nat (- i)) else nat_repr (nat i))"

text \<open>\<^verbatim>\<open>'{0:04x}'.format(n)\<close> for \<open>n < 0x10000\<close>: four lower-case hexadecimal digits.\<close>

definition hexdigit :: "nat \<Rightarrow> nat" where
  "hexdigit d = (if d < 10 then ch CHR ''0'' + d else ch CHR ''a'' + (d - 10))"

definition hex4 :: "nat \<Rightarrow> pystr" where
  "hex4 n = [hexdigit (n div 4096 mod 16), hexdigit (n div 256 mod 16),
             hexdigit (n div 16 mod 16), hexdigit (n mod 16)]"

text \<open>\<^verbatim>\<open>ESCAPE_DCT\<close>: the short escapes, and \<^verbatim>\<open>\u00XX\<close> for the other characters below
  \<open>0x20\<close>.\<close>

definition ESCAPE_DCT :: "nat \<Rightarrow> pystr option" where
  "ESCAPE_DCT c =
     (if c = backslash then Some [backslash, backslash]
      else if c = quote then Some [backslash, quote]
      else if c = 8 then Some [backslash, ch CHR ''b'']
      else if c = 12 then Some [backslash, ch CHR ''f'']
      else if c = 10 then Some [backslash, ch CHR ''n'']
      else if c = 13 then Some [backslash, ch CHR ''r'']
      else if c = 9 then Some [backslash, ch CHR ''t'']
      else if c < 0x20 then Some ([backslash, ch CHR ''u''] @ hex4 c)
      else None)"

text \<open>\<^verbatim>\<open>py_encode_basestring_ascii\<close>: \<^verbatim>\<open>ESCAPE_ASCII\<close> matches a backslash, a double quote
  and every character outside \<^verbatim>\<open>' '\<close>..\<^verbatim>\<open>'~'\<close>; \<open>replace\<close> is applied to each match, and a
  character above \<open>0xFFFF\<close> becomes a surrogate pair.\<close>

definition replace :: "nat \<Rightarrow> pystr" where
  "replace c =
     (if c = backslash \<or> c = quote \<or> \<not> (0x20 \<le> c \<and> c \<le> 0x7E) then
        (case ESCAPE_DCT c of
           Some r \<Rightarrow> r
         | None \<Rightarrow>
             (if c < 0x10000 then [backslash, ch CHR ''u''] @ hex4 c
              else
                (let n = c - 0x10000;
                     s1 = 0xD800 OR (drop_bit 10 n AND 0x3FF);
                     s2 = 0xDC00 OR (n AND 0x3FF)
                 in [backslash, ch CHR ''u''] @ hex4 s1 @ [backslash, ch CHR ''u''] @ hex4 s2)))
      else [c])"

definition encode_basestring_ascii :: "pystr \<Rightarrow> pystr" where
  "encode_basestring_ascii s = quote # concat (map replace s) @ [quote]"

definition floatstr :: "('f \<Rightarrow> pystr) \<Rightarrow> 'f pyfloat \<Rightarrow> pystr" where
  "floatstr float_repr v =
     (case v of
        NaN \<Rightarrow> str ''NaN''
      | PosInf \<Rightarrow> str ''Infinity''
      | NegInf \<Rightarrow> str ''-Infinity''
      | Finite x \<Rightarrow> float_repr x)"

text \<open>\<^verbatim>\<open>_iterencode\<close>, \<^verbatim>\<open>_iterencode_list\<close> and \<^verbatim>\<open>_iterencode_dict\<close>, with the chunks
  joined. \<open>iterencode_list\<close> and \<open>iterencode_dict\<close> are the loops after the first
  element: separator, element, and the closing bracket at the end.\<close>

fun iterencode :: "('f \<Rightarrow> pystr) \<Rightarrow> 'f pyval \<Rightarrow> pystr"
  and iterencode_list :: "('f \<Rightarrow> pystr) \<Rightarrow> 'f pyval list \<Rightarrow> pystr"
  and iterencode_dict :: "('f \<Rightarrow> pystr) \<Rightarrow> (pystr \<times> 'f pyval) list \<Rightarrow> pystr"
where
  "iterencode R (PyStr s) = encode_basestring_ascii s"
| "iterencode R PyNone = str ''null''"
| "iterencode R (PyBool True) = str ''true''"
| "iterencode R (PyBool False) = str ''false''"
| "iterencode R (PyInt i) = int_repr i"
| "iterencode R (PyFloat x) = floatstr R x"
| "iterencode R (PyList []) = str ''[]''"
| "iterencode R (PyList (v # vs)) = str ''['' @ iterencode R v @ iterencode_list R vs"
| "iterencode R (PyDict []) = str ''{}''"
| "iterencode R (PyDict ((k, v) # kvs)) =
     str ''{'' @ encode_basestring_ascii k @ str '': '' @ iterencode R v @ iterencode_dict R kvs"
| "iterencode_list R [] = str '']''"
| "iterencode_list R (v # vs) = str '', '' @ iterencode R v @ iterencode_list R vs"
| "iterencode_dict R [] = str ''}''"
| "iterencode_dict R ((k, v) # kvs) =
     str '', '' @ encode_basestring_ascii k @ str '': '' @ iterencode R v @ iterencode_dict R kvs"

definition json_dumps :: "('f \<Rightarrow> pystr) \<Rightarrow> 'f pyval \<Rightarrow> pystr" where
  "json_dumps float_repr obj = iterencode float_repr obj"

section \<open>json.loads\<close>

text \<open>
  \<^verbatim>\<open>json.loads(json_data)\<close> with its defaults (\<^verbatim>\<open>strict=True\<close>, no hooks), after
  \<^verbatim>\<open>json/decoder.py\<close> and \<^verbatim>\<open>json/scanner.py\<close> of the Python standard library. The
  parser works on the rest of the text where the Python works on the text and an index.
  A \<^verbatim>\<open>JSONDecodeError\<close> keeps neither message nor position. Number digits are the
  ASCII digits and a \<^verbatim>\<open>\uXXXX\<close> escape is four hexadecimal digits, as the C
  accelerator of CPython reads them. \<^verbatim>\<open>float(num_str)\<close> is the parameter
  \<open>float_of_str\<close>. The limits of the interpreter (recursion depth, the length of an
  integer literal, memory) are not modelled.
\<close>

definition is_ws :: "nat \<Rightarrow> bool" where
  "is_ws c = (c = ch CHR '' '' \<or> c = 9 \<or> c = 10 \<or> c = 13)"

definition skip_ws :: "pystr \<Rightarrow> pystr" where
  "skip_ws cs = dropWhile is_ws cs"

definition is_digit :: "nat \<Rightarrow> bool" where
  "is_digit c = (ch CHR ''0'' \<le> c \<and> c \<le> ch CHR ''9'')"

definition hexval :: "nat \<Rightarrow> nat option" where
  "hexval c =
     (if ch CHR ''0'' \<le> c \<and> c \<le> ch CHR ''9'' then Some (c - ch CHR ''0'')
      else if ch CHR ''a'' \<le> c \<and> c \<le> ch CHR ''f'' then Some (c - ch CHR ''a'' + 10)
      else if ch CHR ''A'' \<le> c \<and> c \<le> ch CHR ''F'' then Some (c - ch CHR ''A'' + 10)
      else None)"

text \<open>\<^verbatim>\<open>_decode_uXXXX\<close>: the value of the four hexadecimal digits at the head of the
  text; \<open>None\<close> is the \<^verbatim>\<open>JSONDecodeError\<close>.\<close>

definition decode_uXXXX :: "pystr \<Rightarrow> nat option" where
  "decode_uXXXX cs =
     (case cs of
        a # b # c # d # _ \<Rightarrow>
          (case (hexval a, hexval b, hexval c, hexval d) of
             (Some x, Some y, Some z, Some w) \<Rightarrow> Some (((x * 16 + y) * 16 + z) * 16 + w)
           | _ \<Rightarrow> None)
      | _ \<Rightarrow> None)"

definition BACKSLASH :: "nat \<Rightarrow> nat option" where
  "BACKSLASH esc =
     (if esc = quote then Some quote
      else if esc = backslash then Some backslash
      else if esc = ch CHR ''/'' then Some (ch CHR ''/'')
      else if esc = ch CHR ''b'' then Some 8
      else if esc = ch CHR ''f'' then Some 12
      else if esc = ch CHR ''n'' then Some 10
      else if esc = ch CHR ''r'' then Some 13
      else if esc = ch CHR ''t'' then Some 9
      else None)"

definition append_char :: "nat \<Rightarrow> pyerr + (pystr \<times> pystr) \<Rightarrow> pyerr + (pystr \<times> pystr)" where
  "append_char c r = (case r of Inl e \<Rightarrow> Inl e | Inr (s, rest) \<Rightarrow> Inr (c # s, rest))"

text \<open>\<^verbatim>\<open>py_scanstring\<close>, from the character after the opening quote: the decoded string
  and the text after the closing quote. A chunk of \<^verbatim>\<open>STRINGCHUNK\<close> is read one
  character at a time.\<close>

function scanstring :: "pystr \<Rightarrow> pyerr + (pystr \<times> pystr)" where
  "scanstring [] = Inl JSONDecodeError"
| "scanstring (c # cs) =
     (if c = quote then Inr ([], cs)
      else if c = backslash then
        (case cs of
           [] \<Rightarrow> Inl JSONDecodeError
         | esc # cs' \<Rightarrow>
             if esc \<noteq> ch CHR ''u'' then
               (case BACKSLASH esc of
                  None \<Rightarrow> Inl JSONDecodeError
                | Some char \<Rightarrow> append_char char (scanstring cs'))
             else
               (case decode_uXXXX cs' of
                  None \<Rightarrow> Inl JSONDecodeError
                | Some uni \<Rightarrow>
                    if 0xD800 \<le> uni \<and> uni \<le> 0xDBFF
                       \<and> take 2 (drop 4 cs') = [backslash, ch CHR ''u''] then
                      (case decode_uXXXX (drop 6 cs') of
                         None \<Rightarrow> Inl JSONDecodeError
                       | Some uni2 \<Rightarrow>
                           if 0xDC00 \<le> uni2 \<and> uni2 \<le> 0xDFFF then
                             append_char
                               (0x10000 + (push_bit 10 (uni - 0xD800) OR (uni2 - 0xDC00)))
                               (scanstring (drop 10 cs'))
                           else append_char uni (scanstring (drop 4 cs')))
                    else append_char uni (scanstring (drop 4 cs'))))
      else if c < 0x20 then Inl JSONDecodeError
      else append_char c (scanstring cs))"
  by pat_completeness auto
termination
  by (relation "measure length") auto

declare scanstring.simps [simp del]

text \<open>\<^verbatim>\<open>NUMBER_RE\<close>, \<^verbatim>\<open>(-?(?:0|[1-9]\d*))(\.\d+)?([eE][-+]?\d+)?\<close>, matched at the head of the
  text: the three groups (an absent group is empty) and the text after the match.\<close>

definition match_frac :: "pystr \<Rightarrow> pystr \<times> pystr" where
  "match_frac cs =
     (case cs of
        c # d # r \<Rightarrow>
          if c = ch CHR ''.'' \<and> is_digit d
          then (c # d # takeWhile is_digit r, dropWhile is_digit r)
          else ([], cs)
      | _ \<Rightarrow> ([], cs))"

definition match_exp :: "pystr \<Rightarrow> pystr \<times> pystr" where
  "match_exp cs =
     (case cs of
        [] \<Rightarrow> ([], cs)
      | e # r \<Rightarrow>
          if e = ch CHR ''e'' \<or> e = ch CHR ''E'' then
            (let sg = (case r of
                         [] \<Rightarrow> []
                       | s # _ \<Rightarrow> if s = ch CHR ''-'' \<or> s = ch CHR ''+'' then [s] else []);
                 r' = drop (length sg) r
             in (case r' of
                   [] \<Rightarrow> ([], cs)
                 | d # r'' \<Rightarrow>
                     if is_digit d
                     then (e # sg @ d # takeWhile is_digit r'', dropWhile is_digit r'')
                     else ([], cs)))
          else ([], cs))"

definition match_integer :: "pystr \<Rightarrow> (pystr \<times> pystr) option" where
  "match_integer cs =
     (let sg = (case cs of
                  [] \<Rightarrow> []
                | s # _ \<Rightarrow> if s = ch CHR ''-'' then [s] else []);
          r = drop (length sg) cs
      in (case r of
            [] \<Rightarrow> None
          | d # r' \<Rightarrow>
              if d = ch CHR ''0'' then Some (sg @ [d], r')
              else if is_digit d then Some (sg @ d # takeWhile is_digit r', dropWhile is_digit r')
              else None))"

definition match_number :: "pystr \<Rightarrow> (pystr \<times> pystr \<times> pystr \<times> pystr) option" where
  "match_number cs =
     (case match_integer cs of
        None \<Rightarrow> None
      | Some (integer, r) \<Rightarrow>
          (let (frac, r') = match_frac r;
               (exp, r'') = match_exp r'
           in Some (integer, frac, exp, r'')))"

text \<open>\<^verbatim>\<open>int(integer)\<close> on a match of the first group.\<close>

definition digits_val :: "pystr \<Rightarrow> nat" where
  "digits_val ds = foldl (\<lambda>a d. 10 * a + (d - ch CHR ''0'')) 0 ds"

definition parse_int :: "pystr \<Rightarrow> int" where
  "parse_int integer =
     (case integer of
        [] \<Rightarrow> 0
      | s # ds \<Rightarrow> if s = ch CHR ''-'' then - int (digits_val ds) else int (digits_val integer))"

text \<open>\<^verbatim>\<open>dict(pairs)\<close>: the pairs are stored one after the other, so a repeated key keeps
  its first place and its last value.\<close>

definition dict :: "(pystr \<times> 'f pyval) list \<Rightarrow> (pystr \<times> 'f pyval) list" where
  "dict pairs = foldl (\<lambda>d kv. AList.update (fst kv) (snd kv) d) [] pairs"

text \<open>
  \<^verbatim>\<open>_scan_once\<close> of \<^verbatim>\<open>py_make_scanner\<close> on a text that starts neither an object nor an
  array: a string, \<^verbatim>\<open>null\<close>, \<^verbatim>\<open>true\<close>, \<^verbatim>\<open>false\<close>, a number, or one of the constants
  \<^verbatim>\<open>NaN\<close>, \<^verbatim>\<open>Infinity\<close>, \<^verbatim>\<open>-Infinity\<close>. The \<^verbatim>\<open>StopIteration\<close> of \<^verbatim>\<open>_scan_once\<close>
  is turned into a \<^verbatim>\<open>JSONDecodeError\<close> by every caller, so it is one here.
\<close>

definition scan_string :: "pystr \<Rightarrow> pyerr + ('f pyval \<times> pystr)" where
  "scan_string cs =
     (case scanstring cs of
        Inl e \<Rightarrow> Inl e
      | Inr (s, r) \<Rightarrow> Inr (PyStr s, r))"

definition scan_literal :: "(pystr \<Rightarrow> 'f pyfloat) \<Rightarrow> pystr \<Rightarrow> pyerr + ('f pyval \<times> pystr)" where
  "scan_literal F cs =
     (case cs of
        [] \<Rightarrow> Inl JSONDecodeError
      | nextchar # r \<Rightarrow>
          if nextchar = ch CHR ''n'' \<and> take 4 cs = str ''null'' then Inr (PyNone, drop 4 cs)
          else if nextchar = ch CHR ''t'' \<and> take 4 cs = str ''true''
            then Inr (PyBool True, drop 4 cs)
          else if nextchar = ch CHR ''f'' \<and> take 5 cs = str ''false''
            then Inr (PyBool False, drop 5 cs)
          else
            (case match_number cs of
               Some (integer, frac, exp, r') \<Rightarrow>
                 if frac \<noteq> [] \<or> exp \<noteq> []
                 then Inr (PyFloat (F (integer @ frac @ exp)), r')
                 else Inr (PyInt (parse_int integer), r')
             | None \<Rightarrow>
                 if nextchar = ch CHR ''N'' \<and> take 3 cs = str ''NaN''
                   then Inr (PyFloat NaN, drop 3 cs)
                 else if nextchar = ch CHR ''I'' \<and> take 8 cs = str ''Infinity''
                   then Inr (PyFloat PosInf, drop 8 cs)
                 else if nextchar = ch CHR ''-'' \<and> take 9 cs = str ''-Infinity''
                   then Inr (PyFloat NegInf, drop 9 cs)
                 else Inl JSONDecodeError))"

text \<open>
  \<^verbatim>\<open>JSONObject\<close> and \<^verbatim>\<open>JSONArray\<close> take the scanner as an argument, as in the Python.
  \<open>JSONObject_loop\<close> and \<open>JSONArray_loop\<close> are their \<^verbatim>\<open>while True\<close> loops, entered
  after the opening quote of a key and at the first character of a value. The nat is
  the budget of the loop: every round spends one unit. The whitespace shortcuts of
  the Python all skip the whole run of whitespace. \<open>object_key\<close> reads a key up to the
  start of its value; \<open>object_next\<close> and \<open>array_next\<close> read what follows a value: the
  closing bracket (\<open>False\<close>: the loop ends), or a comma (\<open>True\<close>: one more round).
\<close>

definition object_key :: "pystr \<Rightarrow> pyerr + (pystr \<times> pystr)" where
  "object_key cs =
     (case scanstring cs of
        Inl e \<Rightarrow> Inl e
      | Inr (key, r) \<Rightarrow>
          (case skip_ws r of
             [] \<Rightarrow> Inl JSONDecodeError
           | colon # r1 \<Rightarrow>
               if colon \<noteq> ch CHR '':'' then Inl JSONDecodeError
               else Inr (key, skip_ws r1)))"

definition object_next :: "pystr \<Rightarrow> pyerr + (bool \<times> pystr)" where
  "object_next cs =
     (case skip_ws cs of
        [] \<Rightarrow> Inl JSONDecodeError
      | nextchar # r \<Rightarrow>
          if nextchar = ch CHR ''}'' then Inr (False, r)
          else if nextchar \<noteq> ch CHR '','' then Inl JSONDecodeError
          else
            (case skip_ws r of
               [] \<Rightarrow> Inl JSONDecodeError
             | q # r' \<Rightarrow> if q \<noteq> quote then Inl JSONDecodeError else Inr (True, r')))"

definition array_next :: "pystr \<Rightarrow> pyerr + (bool \<times> pystr)" where
  "array_next cs =
     (case skip_ws cs of
        [] \<Rightarrow> Inl JSONDecodeError
      | nextchar # r \<Rightarrow>
          if nextchar = ch CHR '']'' then Inr (False, r)
          else if nextchar \<noteq> ch CHR '','' then Inl JSONDecodeError
          else Inr (True, skip_ws r))"

fun JSONObject_loop ::
    "(pystr \<Rightarrow> pyerr + ('f pyval \<times> pystr)) \<Rightarrow> nat \<Rightarrow> (pystr \<times> 'f pyval) list \<Rightarrow> pystr
      \<Rightarrow> pyerr + ('f pyval \<times> pystr)"
where
  "JSONObject_loop scan 0 pairs cs = Inl OutOfFuel"
| "JSONObject_loop scan (Suc n) pairs cs =
     (case object_key cs of
        Inl e \<Rightarrow> Inl e
      | Inr (key, r) \<Rightarrow>
          (case scan r of
             Inl e \<Rightarrow> Inl e
           | Inr (value, r') \<Rightarrow>
               (case object_next r' of
                  Inl e \<Rightarrow> Inl e
                | Inr (more, r'') \<Rightarrow>
                    if more then JSONObject_loop scan n (pairs @ [(key, value)]) r''
                    else Inr (PyDict (dict (pairs @ [(key, value)])), r''))))"

definition JSONObject ::
    "(pystr \<Rightarrow> pyerr + ('f pyval \<times> pystr)) \<Rightarrow> nat \<Rightarrow> pystr \<Rightarrow> pyerr + ('f pyval \<times> pystr)"
where
  "JSONObject scan n cs =
     (case skip_ws cs of
        [] \<Rightarrow> Inl JSONDecodeError
      | nextchar # r \<Rightarrow>
          if nextchar = ch CHR ''}'' then Inr (PyDict [], r)
          else if nextchar = quote then JSONObject_loop scan n [] r
          else Inl JSONDecodeError)"

fun JSONArray_loop ::
    "(pystr \<Rightarrow> pyerr + ('f pyval \<times> pystr)) \<Rightarrow> nat \<Rightarrow> 'f pyval list \<Rightarrow> pystr
      \<Rightarrow> pyerr + ('f pyval \<times> pystr)"
where
  "JSONArray_loop scan 0 values cs = Inl OutOfFuel"
| "JSONArray_loop scan (Suc n) values cs =
     (case scan cs of
        Inl e \<Rightarrow> Inl e
      | Inr (value, r) \<Rightarrow>
          (case array_next r of
             Inl e \<Rightarrow> Inl e
           | Inr (more, r') \<Rightarrow>
               if more then JSONArray_loop scan n (values @ [value]) r'
               else Inr (PyList (values @ [value]), r')))"

definition JSONArray ::
    "(pystr \<Rightarrow> pyerr + ('f pyval \<times> pystr)) \<Rightarrow> nat \<Rightarrow> pystr \<Rightarrow> pyerr + ('f pyval \<times> pystr)"
where
  "JSONArray scan n cs =
     (case skip_ws cs of
        [] \<Rightarrow> Inl JSONDecodeError
      | nextchar # r \<Rightarrow>
          if nextchar = ch CHR '']'' then Inr (PyList [], r)
          else JSONArray_loop scan n [] (nextchar # r))"

text \<open>
  \<^verbatim>\<open>_scan_once\<close>. The nat is the recursion budget: a nested object or array is scanned
  with one unit less. The budget \<open>json_loads\<close> gives is more than the length of the
  text, which no run uses up (\<open>json_loads_fuel\<close> below).
\<close>

primrec scan_once :: "(pystr \<Rightarrow> 'f pyfloat) \<Rightarrow> nat \<Rightarrow> pystr \<Rightarrow> pyerr + ('f pyval \<times> pystr)"
where
  "scan_once F 0 cs = Inl OutOfFuel"
| "scan_once F (Suc n) cs =
     (case cs of
        [] \<Rightarrow> Inl JSONDecodeError
      | nextchar # r \<Rightarrow>
          if nextchar = quote then scan_string r
          else if nextchar = ch CHR ''{'' then JSONObject (scan_once F n) n r
          else if nextchar = ch CHR ''['' then JSONArray (scan_once F n) n r
          else scan_literal F cs)"

text \<open>\<^verbatim>\<open>json.loads\<close> on a \<^verbatim>\<open>str\<close>: a leading byte order mark is refused, then
  \<^verbatim>\<open>JSONDecoder.decode\<close> skips the whitespace around the one value and refuses any other
  text after it (\<^verbatim>\<open>Extra data\<close>).\<close>

definition json_loads :: "(pystr \<Rightarrow> 'f pyfloat) \<Rightarrow> pystr \<Rightarrow> pyerr + 'f pyval" where
  "json_loads float_of_str s =
     (if take 1 s = [0xFEFF] then Inl JSONDecodeError
      else
        (case scan_once float_of_str (Suc (length s)) (skip_ws s) of
           Inl e \<Rightarrow> Inl e
         | Inr (obj, r) \<Rightarrow> if skip_ws r \<noteq> [] then Inl JSONDecodeError else Inr obj))"

section \<open>The script\<close>

text \<open>
  The world of the script: the files by path (the text a read in text mode returns),
  and the trace of what the script has written, in order. A write to a file that
  cannot be opened for writing, and a file that is not text in the encoding of the
  platform, are not modelled.
\<close>

datatype event = FileWrite pystr pystr | StdoutWrite pystr

record world =
  files :: "pystr \<Rightarrow> pystr option"
  trace :: "event list"

definition file_write :: "pystr \<Rightarrow> pystr \<Rightarrow> world \<Rightarrow> world" where
  "file_write path text w =
     w\<lparr>files := (files w)(path \<mapsto> text), trace := trace w @ [FileWrite path text]\<rparr>"

text \<open>\<^verbatim>\<open>print(x)\<close> for a \<^verbatim>\<open>str\<close>: the text and a newline go to standard output.\<close>

definition print :: "pystr \<Rightarrow> world \<Rightarrow> world" where
  "print text w = w\<lparr>trace := trace w @ [StdoutWrite (text @ [10])]\<rparr>"

text \<open>
  \<^verbatim>\<open>
  with open('atit.json', 'r') as file:
      json_data = file.read()
  data = json.loads(json_data)
  for i, item in enumerate(data['portfolio']):
      item['id'] = i
  updated_json_data = json.dumps(data)
  with open('atit.json', 'w') as file:
      file.write(updated_json_data)
  print(updated_json_data)
  \<close>
  The result is the exception the script ends with, or \<^verbatim>\<open>data\<close> at its end, and the
  world it leaves.
\<close>

definition main ::
    "(pystr \<Rightarrow> 'f pyfloat) \<Rightarrow> ('f \<Rightarrow> pystr) \<Rightarrow> world \<Rightarrow> (pyerr + 'f pyval) \<times> world"
where
  "main float_of_str float_repr w =
     (case files w (str ''atit.json'') of
        None \<Rightarrow> (Inl FileNotFoundError, w)
      | Some json_data \<Rightarrow>
          (case json_loads float_of_str json_data of
             Inl e \<Rightarrow> (Inl e, w)
           | Inr data0 \<Rightarrow>
               (case reindex data0 of
                  Inl e \<Rightarrow> (Inl e, w)
                | Inr data \<Rightarrow>
                    (let updated_json_data = json_dumps float_repr data;
                         w1 = file_write (str ''atit.json'') updated_json_data w;
                         w2 = print updated_json_data w1
                     in (Inr data, w2)))))"

section \<open>Inputs of the claims\<close>

text \<open>\<^verbatim>\<open>isinstance(x, dict)\<close>: the value is a mapping.\<close>

fun is_dict :: "'f pyval \<Rightarrow> bool" where
  "is_dict (PyDict kvs) = True"
| "is_dict v = False"

text \<open>The values of \<^verbatim>\<open>data['portfolio']\<close> on which the loop raises: a list with an
  element that is not a mapping, a \<^verbatim>\<open>dict\<close> with a key, a string with a character, and
  every value that cannot be iterated.\<close>

fun not_reindexable :: "'f pyval \<Rightarrow> bool" where
  "not_reindexable (PyList items) = list_ex (\<lambda>x. \<not> is_dict x) items"
| "not_reindexable (PyDict kvs) = (kvs \<noteq> [])"
| "not_reindexable (PyStr s) = (s \<noteq> [])"
| "not_reindexable v = True"

text \<open>An instance of the float parameters with a single finite float, for the examples.\<close>

definition float_of_str0 :: "pystr \<Rightarrow> unit pyfloat" where
  "float_of_str0 s = Finite ()"

definition float_repr0 :: "unit \<Rightarrow> pystr" where
  "float_repr0 x = str ''0.0''"

text \<open>A world with the file \<^verbatim>\<open>atit.json\<close> and nothing written yet.\<close>

definition world_of :: "pystr \<Rightarrow> world" where
  "world_of content = \<lparr>files = [str ''atit.json'' \<mapsto> content], trace = []\<rparr>"

text \<open>The example scenario of the specification: the input file, the document
  \<^verbatim>\<open>json.loads\<close> makes of it, and the expected output.\<close>

definition example_text :: pystr where
  "example_text =
     str ''{\"portfolio\": [{\"name\": \"A\"}, {\"name\": \"B\", \"id\": 99}, {\"name\": \"C\"}]}''"

definition example_items :: "unit pyval list" where
  "example_items =
     [PyDict [(str ''name'', PyStr (str ''A''))],
      PyDict [(str ''name'', PyStr (str ''B'')), (str ''id'', PyInt 99)],
      PyDict [(str ''name'', PyStr (str ''C''))]]"

definition example_data :: "unit pyval" where
  "example_data = PyDict [(str ''portfolio'', PyList example_items)]"

definition example_result :: "unit pyval" where
  "example_result =
     PyDict [(str ''portfolio'', PyList
       [PyDict [(str ''name'', PyStr (str ''A'')), (str ''id'', PyInt 0)],
        PyDict [(str ''name'', PyStr (str ''B'')), (str ''id'', PyInt 1)],
        PyDict [(str ''name'', PyStr (str ''C'')), (str ''id'', PyInt 2)]])]"

definition example_output :: pystr where
  "example_output = str
     ''{\"portfolio\": [{\"name\": \"A\", \"id\": 0}, {\"name\": \"B\", \"id\": 1}, {\"name\": \"C\", \"id\": 2}]}''"

section \<open>Texts and documents of the round trip\<close>

text \<open>A text read from a file in text mode holds Unicode scalar values only: the decoder
  of the platform yields no surrogate code point.\<close>

definition scalar_value :: "nat \<Rightarrow> bool" where
  "scalar_value c = (c < 0x110000 \<and> \<not> (0xD800 \<le> c \<and> c \<le> 0xDFFF))"

definition valid_text :: "pystr \<Rightarrow> bool" where
  "valid_text cs = list_all scalar_value cs"

text \<open>The strings \<^verbatim>\<open>json.loads\<close> builds from such a text: code points below \<open>0x110000\<close>,
  and no high surrogate directly before a low surrogate (\<^verbatim>\<open>py_scanstring\<close> joins the two
  escapes of such a pair into one character).\<close>

definition is_high_surrogate :: "nat \<Rightarrow> bool" where
  "is_high_surrogate c = (0xD800 \<le> c \<and> c \<le> 0xDBFF)"

definition is_low_surrogate :: "nat \<Rightarrow> bool" where
  "is_low_surrogate c = (0xDC00 \<le> c \<and> c \<le> 0xDFFF)"

fun str_ok :: "pystr \<Rightarrow> bool" where
  "str_ok [] = True"
| "str_ok (c # cs) =
     (c < 0x110000
      \<and> \<not> (is_high_surrogate c \<and> (case cs of [] \<Rightarrow> False | d # _ \<Rightarrow> is_low_surrogate d))
      \<and> str_ok cs)"

text \<open>The values \<^verbatim>\<open>json.loads\<close> builds from such a text: their strings and keys are as
  above, and the keys of a \<^verbatim>\<open>dict\<close> are distinct.\<close>

fun loadable :: "'f pyval \<Rightarrow> bool"
  and loadable_list :: "'f pyval list \<Rightarrow> bool"
  and loadable_dict :: "(pystr \<times> 'f pyval) list \<Rightarrow> bool"
where
  "loadable (PyStr s) = str_ok s"
| "loadable (PyList vs) = loadable_list vs"
| "loadable (PyDict kvs) = (distinct (map fst kvs) \<and> loadable_dict kvs)"
| "loadable PyNone = True"
| "loadable (PyBool b) = True"
| "loadable (PyInt i) = True"
| "loadable (PyFloat x) = True"
| "loadable_list [] = True"
| "loadable_list (v # vs) = (loadable v \<and> loadable_list vs)"
| "loadable_dict [] = True"
| "loadable_dict ((k, v) # kvs) = (str_ok k \<and> loadable v \<and> loadable_dict kvs)"

text \<open>The texts \<^verbatim>\<open>NUMBER_RE\<close> matches as a whole with a fraction or an exponent: what
  \<^verbatim>\<open>_scan_once\<close> passes to \<^verbatim>\<open>float\<close>.\<close>

definition float_literal :: "pystr \<Rightarrow> bool" where
  "float_literal s =
     (case match_number s of
        Some (integer, frac, exp, r) \<Rightarrow> r = [] \<and> (frac \<noteq> [] \<or> exp \<noteq> [])
      | None \<Rightarrow> False)"

text \<open>What follows a value in the text of \<^verbatim>\<open>json.dumps\<close> (the end, a comma or a closing
  bracket), and the characters such a value can start with.\<close>

definition delim :: "pystr \<Rightarrow> bool" where
  "delim r = (case r of [] \<Rightarrow> True | c # _ \<Rightarrow> c = 44 \<or> c = 93 \<or> c = 125)"

definition value_head :: "pystr \<Rightarrow> bool" where
  "value_head cs =
     (case cs of
        [] \<Rightarrow> False
      | c # _ \<Rightarrow> c \<in> {34, 91, 123, 110, 116, 102, 78, 73, 45} \<or> is_digit c)"

text \<open>Properties of a scanner, for the proofs about \<open>scan_once\<close>: a result leaves a
  shorter rest of the text it was given and the only error is \<^verbatim>\<open>JSONDecodeError\<close>; a
  scanner is sound when its value is one of the values above; it is fuelled up to \<open>n\<close>
  when on a text shorter than \<open>n\<close> it does not run out of budget.\<close>

definition consumes :: "pyerr + ('a \<times> pystr) \<Rightarrow> pystr \<Rightarrow> bool" where
  "consumes res cs =
     (case res of
        Inl e \<Rightarrow> e = JSONDecodeError
      | Inr (x, r) \<Rightarrow> length r < length cs \<and> set r \<subseteq> set cs)"

definition decode_error_only :: "pyerr + 'a \<Rightarrow> bool" where
  "decode_error_only res = (case res of Inl e \<Rightarrow> e = JSONDecodeError | Inr x \<Rightarrow> True)"

definition sound_scan :: "(pystr \<Rightarrow> pyerr + ('f pyval \<times> pystr)) \<Rightarrow> bool" where
  "sound_scan scan \<longleftrightarrow>
     (\<forall>cs v r. scan cs = Inr (v, r) \<longrightarrow>
        length r < length cs \<and> set r \<subseteq> set cs \<and> (valid_text cs \<longrightarrow> loadable v))"

definition fuelled_scan :: "(pystr \<Rightarrow> pyerr + ('f pyval \<times> pystr)) \<Rightarrow> nat \<Rightarrow> bool" where
  "fuelled_scan scan n \<longleftrightarrow> (\<forall>cs. length cs < n \<longrightarrow> decode_error_only (scan cs))"

section \<open>Evaluation on concrete inputs\<close>

lemmas loads_eval = ch_def str_def quote_def backslash_def json_loads_def skip_ws_def is_ws_def
  is_digit_def scan_literal_def scan_string_def scanstring.simps append_char_def BACKSLASH_def
  decode_uXXXX_def hexval_def match_number_def match_integer_def match_frac_def match_exp_def
  parse_int_def digits_val_def dict_def object_key_def object_next_def array_next_def
  JSONObject_def JSONArray_def

lemmas dumps_eval = ch_def str_def quote_def backslash_def json_dumps_def
  encode_basestring_ascii_def replace_def ESCAPE_DCT_def hex4_def hexdigit_def int_repr_def
  nat_repr.simps floatstr_def

lemmas world_eval = main_def world_of_def file_write_def print_def Let_def

lemma str_neq [simp]:
  "str ''id'' \<noteq> str ''name''" "str ''name'' \<noteq> str ''id''"
  by (simp_all add: str_def ch_def)

text \<open>The example scenario of the specification, step by step.\<close>

lemma loads_example: "json_loads float_of_str0 example_text = Inr example_data"
  by (simp add: example_text_def example_data_def example_items_def loads_eval)

lemma reindex_example: "reindex example_data = Inr example_result"
  by (simp add: reindex_def example_data_def example_items_def example_result_def)

lemma dumps_example: "json_dumps float_repr0 example_result = example_output"
  by (simp add: example_output_def example_result_def dumps_eval)

lemma main_example:
  "fst (main float_of_str0 float_repr0 (world_of example_text)) = Inr example_result"
  "trace (snd (main float_of_str0 float_repr0 (world_of example_text))) =
     [FileWrite (str ''atit.json'') example_output, StdoutWrite (example_output @ [10])]"
  "files (snd (main float_of_str0 float_repr0 (world_of example_text))) (str ''atit.json'')
     = Some example_output"
  by (simp_all add: world_eval loads_example reindex_example dumps_example)

lemma example_hyps:
  "getitem example_data (str ''portfolio'') = Inr (PyList example_items)"
  "\<forall>x\<in>set example_items. is_dict x"
  by (simp_all add: example_data_def example_items_def)

section \<open>The reindex loop: results\<close>

lemma is_dict_iff: "is_dict x \<longleftrightarrow> (\<exists>kvs. x = PyDict kvs)"
  by (cases x) auto

lemma setitem_Inr_iff:
  "setitem x k v = Inr y \<longleftrightarrow> (\<exists>kvs. x = PyDict kvs \<and> y = PyDict (AList.update k v kvs))"
  by (cases x) auto

lemma getitem_Inr_iff:
  "getitem x k = Inr y \<longleftrightarrow> (\<exists>kvs. x = PyDict kvs \<and> map_of kvs k = Some y)"
  by (cases x) (auto split: option.splits)

lemma filter_update_other:
  "filter (\<lambda>kv. fst kv \<noteq> k) (AList.update k v al) = filter (\<lambda>kv. fst kv \<noteq> k) al"
  by (induction al) auto

lemma update_same: "map_of al k = Some v \<Longrightarrow> AList.update k v al = al"
  by (induction al) (auto split: if_splits)

text \<open>On a list of mappings the loop succeeds, and element \<open>j\<close> of its result is element
  \<open>j\<close> of the list after \<^verbatim>\<open>item['id'] = i + j\<close>.\<close>

lemma reindex_loop_dicts:
  assumes "\<forall>x\<in>set items. is_dict x"
  shows "\<exists>items'. reindex_loop i items = Inr items' \<and> length items' = length items \<and>
           (\<forall>j<length items.
              setitem (items ! j) (str ''id'') (PyInt (int (i + j))) = Inr (items' ! j))"
  using assms
proof (induction items arbitrary: i)
  case Nil
  then show ?case by simp
next
  case (Cons x xs)
  from Cons.prems obtain kvs where x: "x = PyDict kvs"
    by (auto simp: is_dict_iff)
  from Cons.prems have "\<forall>y\<in>set xs. is_dict y" by simp
  from Cons.IH[OF this, of "Suc i"] obtain xs' where
    xs': "reindex_loop (Suc i) xs = Inr xs'" "length xs' = length xs"
    "\<forall>j<length xs. setitem (xs ! j) (str ''id'') (PyInt (int (Suc i + j))) = Inr (xs' ! j)"
    by blast
  let ?x' = "PyDict (AList.update (str ''id'') (PyInt (int i)) kvs)"
  have "reindex_loop i (x # xs) = Inr (?x' # xs')"
    using x xs'(1) by simp
  moreover have "length (?x' # xs') = length (x # xs)"
    using xs'(2) by simp
  moreover have "\<forall>j<length (x # xs).
      setitem ((x # xs) ! j) (str ''id'') (PyInt (int (i + j))) = Inr ((?x' # xs') ! j)"
  proof (intro allI impI)
    fix j assume "j < length (x # xs)"
    then show "setitem ((x # xs) ! j) (str ''id'') (PyInt (int (i + j))) = Inr ((?x' # xs') ! j)"
      using x xs'(3) by (cases j) auto
  qed
  ultimately show ?case by blast
qed

text \<open>A second run of the loop over its own result changes nothing.\<close>

lemma reindex_loop_idem:
  "reindex_loop i items = Inr items' \<Longrightarrow> reindex_loop i items' = Inr items'"
proof (induction items arbitrary: i items')
  case Nil
  then show ?case by simp
next
  case (Cons x xs)
  from Cons.prems obtain x' xs' where
    s: "setitem x (str ''id'') (PyInt (int i)) = Inr x'" and
    l: "reindex_loop (Suc i) xs = Inr xs'" and
    r: "items' = x' # xs'"
    by (auto split: sum.splits)
  from s obtain kvs where "x' = PyDict (AList.update (str ''id'') (PyInt (int i)) kvs)"
    by (auto simp: setitem_Inr_iff)
  then have "setitem x' (str ''id'') (PyInt (int i)) = Inr x'"
    by simp
  with Cons.IH[OF l] r show ?case by simp
qed

text \<open>The loop raises on the first string it meets, and on any element that is not a
  mapping.\<close>

lemma reindex_loop_strs:
  "reindex_loop i (map (\<lambda>x. PyStr (f x)) xs) = Inr items' \<Longrightarrow> xs = []"
  by (cases xs) auto

lemma reindex_loop_TypeError:
  "list_ex (\<lambda>x. \<not> is_dict x) items \<Longrightarrow> reindex_loop i items = Inl TypeError"
proof (induction items arbitrary: i)
  case Nil
  then show ?case by simp
next
  case (Cons x xs)
  show ?case
  proof (cases "is_dict x")
    case True
    with Cons.prems have "list_ex (\<lambda>x. \<not> is_dict x) xs" by simp
    from Cons.IH[OF this] True show ?thesis
      by (auto simp: is_dict_iff)
  next
    case False
    then show ?thesis by (cases x) auto
  qed
qed

lemma reindex_list:
  assumes "getitem data (str ''portfolio'') = Inr (PyList items)"
    and "\<forall>x\<in>set items. is_dict x"
  shows "\<exists>kvs items'. data = PyDict kvs \<and>
           map_of kvs (str ''portfolio'') = Some (PyList items) \<and>
           reindex data = Inr (PyDict (AList.update (str ''portfolio'') (PyList items') kvs)) \<and>
           reindex_loop 0 items = Inr items' \<and> length items' = length items \<and>
           (\<forall>j<length items.
              setitem (items ! j) (str ''id'') (PyInt (int j)) = Inr (items' ! j))"
proof -
  from assms(1) obtain kvs where d: "data = PyDict kvs"
    and m: "map_of kvs (str ''portfolio'') = Some (PyList items)"
    by (auto simp: getitem_Inr_iff)
  from reindex_loop_dicts[OF assms(2), of 0] obtain items' where
    l: "reindex_loop 0 items = Inr items'" "length items' = length items"
    "\<forall>j<length items. setitem (items ! j) (str ''id'') (PyInt (int j)) = Inr (items' ! j)"
    by auto
  have "reindex data = Inr (PyDict (AList.update (str ''portfolio'') (PyList items') kvs))"
    using d m l(1) by (simp add: reindex_def)
  with d m l show ?thesis by blast
qed

lemma reindex_idem:
  assumes "reindex data = Inr data'"
  shows "reindex data' = Inr data'"
proof -
  from assms obtain p items items' where
    g: "getitem data (str ''portfolio'') = Inr p" and
    it: "py_iter p = Inr items" and
    l: "reindex_loop 0 items = Inr items'" and
    w: "data' = write_back data p items'"
    by (auto simp: reindex_def split: sum.splits)
  from g obtain kvs where d: "data = PyDict kvs"
    and m: "map_of kvs (str ''portfolio'') = Some p"
    by (auto simp: getitem_Inr_iff)
  show ?thesis
  proof (cases p)
    case (PyList xs)
    with it have "items = xs" by simp
    with w d PyList have
      d': "data' = PyDict (AList.update (str ''portfolio'') (PyList items') kvs)"
      by simp
    have "map_of (AList.update (str ''portfolio'') (PyList items') kvs) (str ''portfolio'')
            = Some (PyList items')"
      by (simp add: update_conv')
    then show ?thesis
      using d' reindex_loop_idem[OF l] by (simp add: reindex_def)
  next
    case (PyDict ps)
    with it have "items = map (\<lambda>kv. PyStr (fst kv)) ps" by simp
    with l have "ps = []" by (auto dest: reindex_loop_strs)
    with PyDict w d have "data' = data" by simp
    with assms show ?thesis by simp
  next
    case (PyStr s)
    with it have "items = map (\<lambda>c. PyStr [c]) s" by simp
    with l have "s = []" by (auto dest: reindex_loop_strs)
    with PyStr w d have "data' = data" by simp
    with assms show ?thesis by simp
  qed (use it in auto)
qed

lemma reindex_not_reindexable:
  assumes "getitem data (str ''portfolio'') = Inr p" and "not_reindexable p"
  shows "reindex data = Inl TypeError"
proof (cases p)
  case (PyList items)
  with assms show ?thesis
    by (simp add: reindex_def reindex_loop_TypeError)
next
  case (PyDict kvs)
  with assms(2) obtain kv kvs' where "kvs = kv # kvs'" by (cases kvs) auto
  with assms(1) PyDict show ?thesis by (simp add: reindex_def)
next
  case (PyStr s)
  with assms(2) obtain c s' where "s = c # s'" by (cases s) auto
  with assms(1) PyStr show ?thesis by (simp add: reindex_def)
qed (use assms(1) in \<open>simp_all add: reindex_def\<close>)

lemma reindex_empty:
  assumes "map_of kvs (str ''portfolio'') = Some (PyList [])"
  shows "reindex (PyDict kvs) = Inr (PyDict kvs)"
  using assms by (simp add: reindex_def update_same)

text \<open>
  Claim C1. When \<^verbatim>\<open>data['portfolio']\<close> is a list of \<open>N\<close> mappings, the transformation
  succeeds, the list still has \<open>N\<close> elements, and the element at position \<open>i\<close> has
  \<^verbatim>\<open>id\<close> equal to \<open>i\<close>, for every \<open>i < N\<close>.
\<close>

theorem C1_reindex_ids:
  assumes "getitem data (str ''portfolio'') = Inr (PyList items)"
    and "\<forall>x\<in>set items. is_dict x"
  shows "\<exists>data' items'. reindex data = Inr data' \<and>
           getitem data' (str ''portfolio'') = Inr (PyList items') \<and>
           length items' = length items \<and>
           (\<forall>i<length items. getitem (items' ! i) (str ''id'') = Inr (PyInt (int i)))"
proof -
  from reindex_list[OF assms] obtain kvs items' where
    r: "reindex data = Inr (PyDict (AList.update (str ''portfolio'') (PyList items') kvs))"
    and n: "length items' = length items"
    and s: "\<forall>j<length items.
              setitem (items ! j) (str ''id'') (PyInt (int j)) = Inr (items' ! j)"
    by blast
  have "getitem (PyDict (AList.update (str ''portfolio'') (PyList items') kvs))
          (str ''portfolio'') = Inr (PyList items')"
    by (simp add: update_conv')
  moreover have "\<forall>i<length items. getitem (items' ! i) (str ''id'') = Inr (PyInt (int i))"
  proof (intro allI impI)
    fix i assume "i < length items"
    with s obtain fs where "items' ! i = PyDict (AList.update (str ''id'') (PyInt (int i)) fs)"
      by (auto simp: setitem_Inr_iff)
    then show "getitem (items' ! i) (str ''id'') = Inr (PyInt (int i))"
      by (simp add: update_conv')
  qed
  ultimately show ?thesis using r n by blast
qed

theorem C1_reindex_ids_witness:
  "getitem example_data (str ''portfolio'') = Inr (PyList example_items) \<and>
   list_all is_dict example_items \<and>
   (\<exists>data' items'. reindex example_data = Inr data' \<and>
      getitem data' (str ''portfolio'') = Inr (PyList items') \<and>
      length items' = length example_items \<and>
      (\<forall>i<length example_items. getitem (items' ! i) (str ''id'') = Inr (PyInt (int i))))"
  using C1_reindex_ids[OF example_hyps] example_hyps by (simp add: list_all_iff)

text \<open>
  Claim C2. When \<^verbatim>\<open>data['portfolio']\<close> is a list of mappings, the transformation keeps
  the keys of the document in their order and every entry of the document other than
  \<^verbatim>\<open>portfolio\<close>; the list keeps its length and the order of its elements; every
  element keeps its fields other than \<^verbatim>\<open>id\<close>, with their values and in their order. The
  key \<^verbatim>\<open>id\<close> keeps its place when the element had one (the value is overwritten) and is
  added at the end otherwise.
\<close>

theorem C2_reindex_frame:
  assumes "getitem data (str ''portfolio'') = Inr (PyList items)"
    and "\<forall>x\<in>set items. is_dict x"
  shows "\<exists>kvs kvs' items'. data = PyDict kvs \<and> reindex data = Inr (PyDict kvs') \<and>
           map fst kvs' = map fst kvs \<and>
           filter (\<lambda>kv. fst kv \<noteq> str ''portfolio'') kvs'
             = filter (\<lambda>kv. fst kv \<noteq> str ''portfolio'') kvs \<and>
           map_of kvs' (str ''portfolio'') = Some (PyList items') \<and>
           length items' = length items \<and>
           (\<forall>i<length items. \<exists>fs fs'.
              items ! i = PyDict fs \<and> items' ! i = PyDict fs' \<and>
              filter (\<lambda>kv. fst kv \<noteq> str ''id'') fs'
                = filter (\<lambda>kv. fst kv \<noteq> str ''id'') fs \<and>
              map fst fs' = (if str ''id'' \<in> set (map fst fs) then map fst fs
                             else map fst fs @ [str ''id'']) \<and>
              map_of fs' (str ''id'') = Some (PyInt (int i)))"
proof -
  from reindex_list[OF assms] obtain kvs items' where
    d: "data = PyDict kvs"
    and m: "map_of kvs (str ''portfolio'') = Some (PyList items)"
    and r: "reindex data = Inr (PyDict (AList.update (str ''portfolio'') (PyList items') kvs))"
    and n: "length items' = length items"
    and s: "\<forall>j<length items.
              setitem (items ! j) (str ''id'') (PyInt (int j)) = Inr (items' ! j)"
    by blast
  let ?kvs' = "AList.update (str ''portfolio'') (PyList items') kvs"
  from m have "str ''portfolio'' \<in> set (map fst kvs)"
    by (metis map_of_eq_None_iff option.distinct(1) set_map)
  then have keys: "map fst ?kvs' = map fst kvs"
    by (simp add: update_keys)
  have rest: "filter (\<lambda>kv. fst kv \<noteq> str ''portfolio'') ?kvs'
                = filter (\<lambda>kv. fst kv \<noteq> str ''portfolio'') kvs"
    by (rule filter_update_other)
  have look: "map_of ?kvs' (str ''portfolio'') = Some (PyList items')"
    by (simp add: update_conv')
  have elems: "\<forall>i<length items. \<exists>fs fs'.
      items ! i = PyDict fs \<and> items' ! i = PyDict fs' \<and>
      filter (\<lambda>kv. fst kv \<noteq> str ''id'') fs' = filter (\<lambda>kv. fst kv \<noteq> str ''id'') fs \<and>
      map fst fs' = (if str ''id'' \<in> set (map fst fs) then map fst fs
                     else map fst fs @ [str ''id'']) \<and>
      map_of fs' (str ''id'') = Some (PyInt (int i))"
  proof (intro allI impI)
    fix i assume "i < length items"
    with s obtain fs where i: "items ! i = PyDict fs"
      and i': "items' ! i = PyDict (AList.update (str ''id'') (PyInt (int i)) fs)"
      by (auto simp: setitem_Inr_iff)
    let ?fs' = "AList.update (str ''id'') (PyInt (int i)) fs"
    have "filter (\<lambda>kv. fst kv \<noteq> str ''id'') ?fs' = filter (\<lambda>kv. fst kv \<noteq> str ''id'') fs"
      by (rule filter_update_other)
    moreover have "map fst ?fs' = (if str ''id'' \<in> set (map fst fs) then map fst fs
                     else map fst fs @ [str ''id''])"
      by (rule update_keys)
    moreover have "map_of ?fs' (str ''id'') = Some (PyInt (int i))"
      by (simp add: update_conv')
    ultimately show "\<exists>fs fs'.
      items ! i = PyDict fs \<and> items' ! i = PyDict fs' \<and>
      filter (\<lambda>kv. fst kv \<noteq> str ''id'') fs' = filter (\<lambda>kv. fst kv \<noteq> str ''id'') fs \<and>
      map fst fs' = (if str ''id'' \<in> set (map fst fs) then map fst fs
                     else map fst fs @ [str ''id'']) \<and>
      map_of fs' (str ''id'') = Some (PyInt (int i))"
      using i i' by blast
  qed
  show ?thesis
    using d r keys rest look n elems by blast
qed

theorem C2_reindex_frame_witness:
  "getitem example_data (str ''portfolio'') = Inr (PyList example_items) \<and>
   list_all is_dict example_items \<and>
   (\<exists>kvs kvs' items'. example_data = PyDict kvs \<and> reindex example_data = Inr (PyDict kvs') \<and>
           map fst kvs' = map fst kvs \<and>
           filter (\<lambda>kv. fst kv \<noteq> str ''portfolio'') kvs'
             = filter (\<lambda>kv. fst kv \<noteq> str ''portfolio'') kvs \<and>
           map_of kvs' (str ''portfolio'') = Some (PyList items') \<and>
           length items' = length example_items \<and>
           (\<forall>i<length example_items. \<exists>fs fs'.
              example_items ! i = PyDict fs \<and> items' ! i = PyDict fs' \<and>
              filter (\<lambda>kv. fst kv \<noteq> str ''id'') fs'
                = filter (\<lambda>kv. fst kv \<noteq> str ''id'') fs \<and>
              map fst fs' = (if str ''id'' \<in> set (map fst fs) then map fst fs
                             else map fst fs @ [str ''id'']) \<and>
              map_of fs' (str ''id'') = Some (PyInt (int i))))"
  using C2_reindex_frame[OF example_hyps] example_hyps by (simp add: list_all_iff)

text \<open>
  Claim C3. When \<^verbatim>\<open>data['portfolio']\<close> is a list of mappings, the transformation
  succeeds, and applied to its own result it succeeds again with that same document.
\<close>

theorem C3_reindex_idempotent:
  assumes "getitem data (str ''portfolio'') = Inr (PyList items)"
    and "\<forall>x\<in>set items. is_dict x"
  shows "\<exists>data'. reindex data = Inr data' \<and> reindex data' = Inr data'"
proof -
  from reindex_list[OF assms] obtain data' where "reindex data = Inr data'"
    by blast
  with reindex_idem[OF this] show ?thesis by blast
qed

theorem C3_reindex_idempotent_witness:
  "getitem example_data (str ''portfolio'') = Inr (PyList example_items) \<and>
   list_all is_dict example_items \<and>
   (\<exists>data'. reindex example_data = Inr data' \<and> reindex data' = Inr data')"
  using C3_reindex_idempotent[OF example_hyps] example_hyps by (simp add: list_all_iff)

section \<open>Strings: \<open>scanstring\<close> reads what \<open>encode_basestring_ascii\<close> writes\<close>

lemmas chars = ch_def quote_def backslash_def

lemma or_push_add: "x < 2 ^ k \<Longrightarrow> push_bit k a OR x = push_bit k a + (x::nat)"
proof -
  assume x: "x < 2 ^ k"
  have "push_bit k a + x = push_bit k a OR x"
  proof (rule disjunctive_add)
    fix n
    have "bit x n \<Longrightarrow> n < k"
      using x by (metis bit_take_bit_iff take_bit_nat_eq_self)
    then show "\<not> bit (push_bit k a) n \<or> \<not> bit x n"
      by (auto simp: bit_push_bit_iff)
  qed
  then show ?thesis by simp
qed

lemma and_3FF: "(n::nat) AND 0x3FF = n mod 1024"
proof -
  have "n AND mask 10 = take_bit 10 n" by (simp add: take_bit_eq_mask)
  then show ?thesis by (simp add: mask_eq_exp_minus_1 take_bit_nat_def)
qed

lemma or_D800: "x < 1024 \<Longrightarrow> 0xD800 OR x = 0xD800 + (x::nat)"
  using or_push_add[of x 10 54] by (simp add: push_bit_nat_def)

lemma or_DC00: "x < 1024 \<Longrightarrow> 0xDC00 OR x = 0xDC00 + (x::nat)"
  using or_push_add[of x 10 55] by (simp add: push_bit_nat_def)

lemma join_surrogates:
  assumes "a < 1024" "b < 1024"
  shows "push_bit 10 a OR b = a * 1024 + (b::nat)"
  using or_push_add[of b 10 a] assms by (simp add: push_bit_nat_def)

lemma hexval_hexdigit: "d < 16 \<Longrightarrow> hexval (hexdigit d) = Some d"
  by (auto simp: hexval_def hexdigit_def chars)

lemma hex4_value:
  assumes "n < 0x10000"
  shows "((n div 4096 mod 16 * 16 + n div 256 mod 16) * 16 + n div 16 mod 16) * 16 + n mod 16
           = (n::nat)"
proof -
  define a where "a = n div 16"
  define b where "b = a div 16"
  define c where "c = b div 16"
  have 1: "n = a * 16 + n mod 16" by (simp add: a_def)
  have 2: "a = b * 16 + a mod 16" by (simp add: b_def)
  have 3: "b = c * 16 + b mod 16" by (simp add: c_def)
  have b: "n div 256 = b" by (simp add: a_def b_def div_mult2_eq)
  have c: "n div 4096 = c" by (simp add: a_def b_def c_def div_mult2_eq)
  have "c < 16" using assms unfolding c[symmetric] by simp
  then have 4: "c mod 16 = c" by simp
  show ?thesis
    unfolding b c 4 a_def[symmetric] using 1 2 3 by simp
qed

lemma decode_digits:
  assumes "a < 16" "b < 16" "c < 16" "d < 16"
  shows "decode_uXXXX ([hexdigit a, hexdigit b, hexdigit c, hexdigit d] @ rest)
           = Some (((a * 16 + b) * 16 + c) * 16 + d)"
  using assms by (simp add: decode_uXXXX_def hexval_hexdigit)

lemma decode_hex4:
  assumes "n < 0x10000"
  shows "decode_uXXXX (hex4 n @ rest) = Some n"
proof -
  have "decode_uXXXX (hex4 n @ rest)
          = Some (((n div 4096 mod 16 * 16 + n div 256 mod 16) * 16 + n div 16 mod 16) * 16
                  + n mod 16)"
    unfolding hex4_def by (rule decode_digits) simp_all
  then show ?thesis by (simp only: hex4_value[OF assms])
qed

lemma length_hex4 [simp]: "length (hex4 n) = 4"
  by (simp add: hex4_def)

lemma replace_plain:
  "\<lbrakk>0x20 \<le> c; c \<le> 0x7E; c \<noteq> 34; c \<noteq> 92\<rbrakk> \<Longrightarrow> replace c = [c]"
  by (simp add: replace_def chars)

lemma replace_short:
  "replace 92 = [92, 92]" "replace 34 = [92, 34]" "replace 8 = [92, 98]"
  "replace 12 = [92, 102]" "replace 10 = [92, 110]" "replace 13 = [92, 114]"
  "replace 9 = [92, 116]"
  by (simp_all add: replace_def ESCAPE_DCT_def chars)

lemma replace_u:
  "\<lbrakk>c < 0x20 \<or> 0x7E < c; c \<notin> {8, 9, 10, 12, 13}; c < 0x10000\<rbrakk>
    \<Longrightarrow> replace c = [92, 117] @ hex4 c"
  by (auto simp: replace_def ESCAPE_DCT_def chars)

lemma replace_pair:
  assumes "0x10000 \<le> c" "c < 0x110000"
  shows "replace c = [92, 117] @ hex4 (0xD800 + (c - 0x10000) div 1024)
                     @ [92, 117] @ hex4 (0xDC00 + (c - 0x10000) mod 1024)"
proof -
  let ?n = "c - 0x10000"
  have n: "?n div 1024 < 1024" using assms by simp
  have 1: "0xD800 OR (drop_bit 10 ?n AND 0x3FF) = 0xD800 + ?n div 1024"
    using n by (simp add: and_3FF drop_bit_nat_def or_D800)
  have 2: "0xDC00 OR (?n AND 0x3FF) = 0xDC00 + ?n mod 1024"
    by (simp add: and_3FF or_DC00)
  show ?thesis
    using assms by (simp add: replace_def ESCAPE_DCT_def chars Let_def 1 2)
qed

lemma scanstring_quote: "scanstring (34 # r) = Inr ([], r)"
  by (simp add: scanstring.simps chars)

lemma scanstring_plain:
  "\<lbrakk>c \<noteq> 34; c \<noteq> 92; 0x20 \<le> c\<rbrakk> \<Longrightarrow> scanstring (c # r) = append_char c (scanstring r)"
  by (simp add: scanstring.simps chars)

lemma scanstring_esc:
  "\<lbrakk>e \<noteq> 117; BACKSLASH e = Some x\<rbrakk>
    \<Longrightarrow> scanstring (92 # e # r) = append_char x (scanstring r)"
  by (simp add: scanstring.simps chars)

lemma scanstring_u:
  assumes "decode_uXXXX r = Some uni"
    and "\<not> (is_high_surrogate uni \<and> take 2 (drop 4 r) = [92, 117])
         \<or> (\<exists>u2. decode_uXXXX (drop 6 r) = Some u2 \<and> \<not> is_low_surrogate u2)"
  shows "scanstring (92 # 117 # r) = append_char uni (scanstring (drop 4 r))"
  using assms
  by (auto simp: scanstring.simps chars is_high_surrogate_def is_low_surrogate_def)

lemma scanstring_pair:
  assumes "decode_uXXXX r = Some uni" "is_high_surrogate uni"
    and "take 2 (drop 4 r) = [92, 117]"
    and "decode_uXXXX (drop 6 r) = Some u2" "is_low_surrogate u2"
  shows "scanstring (92 # 117 # r)
           = append_char (0x10000 + (push_bit 10 (uni - 0xD800) OR (u2 - 0xDC00)))
               (scanstring (drop 10 r))"
  using assms
  by (auto simp: scanstring.simps chars is_high_surrogate_def is_low_surrogate_def)

text \<open>What a \<^verbatim>\<open>\u\<close> escape at the head of an encoded string stands for.\<close>

lemma lookahead:
  assumes "take 2 (concat (map replace cs) @ 34 # rest) = [92, 117]"
    and "str_ok cs"
  shows "\<exists>d ds u2. cs = d # ds \<and>
           decode_uXXXX (drop 2 (concat (map replace cs) @ 34 # rest)) = Some u2 \<and>
           (is_low_surrogate u2 \<longrightarrow> d = u2)"
proof (cases cs)
  case Nil
  with assms(1) show ?thesis by simp
next
  case (Cons d ds)
  with assms(2) have d: "d < 0x110000" by simp
  let ?X = "concat (map replace ds) @ 34 # rest"
  consider (plain) "0x20 \<le> d" "d \<le> 0x7E" "d \<noteq> 34" "d \<noteq> 92"
    | (short) "d \<in> {92, 34, 8, 12, 10, 13, 9}"
    | (u) "d < 0x20 \<or> 0x7E < d" "d \<notin> {8, 9, 10, 12, 13}" "d < 0x10000"
    | (pair) "0x10000 \<le> d"
    by fastforce
  then show ?thesis
  proof cases
    case plain
    with assms(1) Cons show ?thesis by (simp add: replace_plain)
  next
    case short
    with assms(1) Cons show ?thesis by (auto simp: replace_short)
  next
    case u
    then have "decode_uXXXX (drop 2 (concat (map replace cs) @ 34 # rest)) = Some d"
      using Cons by (simp add: replace_u decode_hex4)
    with Cons show ?thesis by simp
  next
    case pair
    let ?s1 = "0xD800 + (d - 0x10000) div 1024"
    from pair d have "?s1 < 0xDC00" by simp
    then have "?s1 < 0x10000" "\<not> is_low_surrogate ?s1"
      by (simp_all add: is_low_surrogate_def)
    moreover have "decode_uXXXX (drop 2 (concat (map replace cs) @ 34 # rest)) = Some ?s1"
      using Cons pair d \<open>?s1 < 0x10000\<close> by (simp add: replace_pair decode_hex4)
    ultimately show ?thesis using Cons by simp
  qed
qed

lemma scanstring_encode:
  "str_ok s \<Longrightarrow> scanstring (concat (map replace s) @ 34 # rest) = Inr (s, rest)"
proof (induction s)
  case Nil
  show ?case by (simp add: scanstring_quote)
next
  case (Cons c cs)
  let ?X = "concat (map replace cs) @ 34 # rest"
  from Cons.prems have c: "c < 0x110000" and ok: "str_ok cs" by simp_all
  from Cons.IH[OF ok] have IH: "scanstring ?X = Inr (cs, rest)" .
  consider (plain) "0x20 \<le> c" "c \<le> 0x7E" "c \<noteq> 34" "c \<noteq> 92"
    | (short) "c \<in> {92, 34, 8, 12, 10, 13, 9}"
    | (u) "c < 0x20 \<or> 0x7E < c" "c \<notin> {8, 9, 10, 12, 13}" "c < 0x10000"
    | (pair) "0x10000 \<le> c"
    by fastforce
  then show ?case
  proof cases
    case plain
    then show ?thesis
      by (simp add: replace_plain scanstring_plain IH append_char_def)
  next
    case short
    then show ?thesis
      by (auto simp: replace_short scanstring_esc BACKSLASH_def chars IH append_char_def)
  next
    case u
    have dec: "decode_uXXXX (hex4 c @ ?X) = Some c"
      using u by (simp add: decode_hex4)
    have side: "\<not> (is_high_surrogate c \<and> take 2 (drop 4 (hex4 c @ ?X)) = [92, 117])
         \<or> (\<exists>u2. decode_uXXXX (drop 6 (hex4 c @ ?X)) = Some u2 \<and> \<not> is_low_surrogate u2)"
    proof (cases "is_high_surrogate c \<and> take 2 ?X = [92, 117]")
      case True
      from lookahead[OF conjunct2[OF True] ok] obtain d ds u2 where
        cs: "cs = d # ds" and u2: "decode_uXXXX (drop 2 ?X) = Some u2"
        and low: "is_low_surrogate u2 \<longrightarrow> d = u2"
        by blast
      from Cons.prems cs True have "\<not> is_low_surrogate d" by simp
      with low have "\<not> is_low_surrogate u2" by blast
      with u2 show ?thesis by simp
    next
      case False
      then show ?thesis by simp
    qed
    have "scanstring (92 # 117 # hex4 c @ ?X) = append_char c (scanstring (drop 4 (hex4 c @ ?X)))"
      by (rule scanstring_u[OF dec side])
    then show ?thesis
      using u by (simp add: replace_u IH append_char_def)
  next
    case pair
    let ?s1 = "0xD800 + (c - 0x10000) div 1024"
    let ?s2 = "0xDC00 + (c - 0x10000) mod 1024"
    let ?r = "hex4 ?s1 @ 92 # 117 # hex4 ?s2 @ ?X"
    from pair c have s1: "?s1 < 0x10000" "is_high_surrogate ?s1"
      by (simp_all add: is_high_surrogate_def)
    have s2: "?s2 < 0x10000" "is_low_surrogate ?s2"
      by (simp_all add: is_low_surrogate_def)
    have 1: "decode_uXXXX ?r = Some ?s1" using s1 by (simp add: decode_hex4)
    have 2: "take 2 (drop 4 ?r) = [92, 117]" by simp
    have 3: "decode_uXXXX (drop 6 ?r) = Some ?s2" using s2 by (simp add: decode_hex4)
    have 4: "drop 10 ?r = ?X" by simp
    have "(c - 0x10000) div 1024 < 1024" using c by simp
    then have 5: "0x10000 + (push_bit 10 (?s1 - 0xD800) OR (?s2 - 0xDC00)) = c"
      using pair by (simp add: join_surrogates)
    from scanstring_pair[OF 1 s1(2) 2 3 s2(2)]
    have "scanstring (92 # 117 # ?r) = append_char c (scanstring ?X)"
      unfolding 4 5 .
    then show ?thesis
      using pair c by (simp add: replace_pair IH append_char_def)
  qed
qed

section \<open>Numbers\<close>

lemma float_literalD:
  "float_literal s \<Longrightarrow> \<exists>i f e. match_number s = Some (i, f, e, []) \<and> (f \<noteq> [] \<or> e \<noteq> [])"
  by (auto simp: float_literal_def split: option.splits)

lemma is_digit_iff: "is_digit c \<longleftrightarrow> 48 \<le> c \<and> c \<le> 57"
  by (simp add: is_digit_def chars)

lemma delim_cases:
  assumes "delim r"
  obtains "r = []" | c r' where "r = c # r'" "c = 44 \<or> c = 93 \<or> c = 125"
  using assms by (cases r) (auto simp: delim_def)

lemma takeWhile_digit_delim:
  "delim rest \<Longrightarrow> takeWhile is_digit (r @ rest) = takeWhile is_digit r"
  by (induction r) (auto simp: is_digit_iff elim!: delim_cases)

lemma dropWhile_digit_delim:
  "delim rest \<Longrightarrow> dropWhile is_digit (r @ rest) = dropWhile is_digit r @ rest"
  by (induction r) (auto simp: is_digit_iff elim!: delim_cases)

lemma match_frac_delim:
  assumes "delim rest"
  shows "match_frac (r @ rest) = (fst (match_frac r), snd (match_frac r) @ rest)"
proof (cases r)
  case Nil
  with assms show ?thesis
    by (auto simp: match_frac_def chars is_digit_iff elim!: delim_cases split: list.splits)
next
  case (Cons c r1)
  show ?thesis
  proof (cases r1)
    case Nil
    with Cons assms show ?thesis
      by (auto simp: match_frac_def chars is_digit_iff elim!: delim_cases)
  next
    case (Cons d r2)
    with \<open>r = c # r1\<close> assms show ?thesis
      by (simp add: match_frac_def takeWhile_digit_delim dropWhile_digit_delim)
  qed
qed

lemma match_exp_delim:
  assumes "delim rest"
  shows "match_exp (r @ rest) = (fst (match_exp r), snd (match_exp r) @ rest)"
proof (cases r)
  case Nil
  with assms show ?thesis
    by (auto simp: match_exp_def Let_def chars elim!: delim_cases)
next
  case (Cons e r1)
  note r = Cons
  show ?thesis
  proof (cases "e = 101 \<or> e = 69")
    case False
    with r show ?thesis by (simp add: match_exp_def Let_def chars)
  next
    case True
    show ?thesis
    proof (cases r1)
      case Nil
      with r True assms show ?thesis
        by (auto simp: match_exp_def Let_def chars is_digit_iff elim!: delim_cases)
    next
      case (Cons s r2)
      note r1 = Cons
      show ?thesis
      proof (cases "s = 45 \<or> s = 43")
        case False
        with r r1 True assms show ?thesis
          by (auto simp: match_exp_def Let_def chars takeWhile_digit_delim dropWhile_digit_delim)
      next
        case sg: True
        show ?thesis
        proof (cases r2)
          case Nil
          with r r1 True sg assms show ?thesis
            by (auto simp: match_exp_def Let_def chars is_digit_iff elim!: delim_cases)
        next
          case (Cons d r3)
          with r r1 True sg assms show ?thesis
            by (auto simp: match_exp_def Let_def chars takeWhile_digit_delim dropWhile_digit_delim)
        qed
      qed
    qed
  qed
qed

lemma match_integer_delim:
  assumes "delim rest"
  shows "match_integer (r @ rest)
           = map_option (\<lambda>p. (fst p, snd p @ rest)) (match_integer r)"
proof (cases r)
  case Nil
  with assms show ?thesis
    by (auto simp: match_integer_def Let_def chars is_digit_iff elim!: delim_cases)
next
  case (Cons s r1)
  note r = Cons
  show ?thesis
  proof (cases "s = 45")
    case False
    with r assms show ?thesis
      by (auto simp: match_integer_def Let_def chars takeWhile_digit_delim dropWhile_digit_delim)
  next
    case True
    show ?thesis
    proof (cases r1)
      case Nil
      with r True assms show ?thesis
        by (auto simp: match_integer_def Let_def chars is_digit_iff elim!: delim_cases)
    next
      case (Cons d r2)
      with r True assms show ?thesis
        by (auto simp: match_integer_def Let_def chars takeWhile_digit_delim dropWhile_digit_delim)
    qed
  qed
qed

lemma match_number_delim:
  assumes "delim rest" and "match_number s = Some (i, f, e, r)"
  shows "match_number (s @ rest) = Some (i, f, e, r @ rest)"
proof -
  from assms(2) obtain r1 where 1: "match_integer s = Some (i, r1)"
    by (auto simp: match_number_def split: option.splits prod.splits)
  from assms(2) 1 obtain r2 where 2: "match_frac r1 = (f, r2)" and 3: "match_exp r2 = (e, r)"
    by (auto simp: match_number_def split: option.splits prod.splits)
  show ?thesis
    using 1 2 3
    by (simp add: match_number_def match_integer_delim[OF assms(1)]
        match_frac_delim[OF assms(1)] match_exp_delim[OF assms(1)])
qed

lemma nat_repr_digits: "\<forall>c\<in>set (nat_repr n). is_digit c"
proof (induction n rule: nat_repr.induct)
  case (1 n)
  show ?case
  proof (cases "n < 10")
    case True
    then show ?thesis by (subst nat_repr.simps) (simp add: is_digit_iff chars)
  next
    case False
    have "n mod 10 < 10" by simp
    then have "is_digit (48 + n mod 10)" unfolding is_digit_iff by linarith
    with False 1 show ?thesis by (subst nat_repr.simps) (simp add: chars)
  qed
qed

lemma nat_repr_Cons: "\<exists>d ds. nat_repr n = d # ds \<and> is_digit d \<and> (d = 48 \<longrightarrow> n = 0)"
proof (induction n rule: nat_repr.induct)
  case (1 n)
  show ?case
  proof (cases "n < 10")
    case True
    then show ?thesis by (subst nat_repr.simps) (simp add: is_digit_iff chars)
  next
    case False
    with 1 obtain d ds where "nat_repr (n div 10) = d # ds" "is_digit d" "d = 48 \<longrightarrow> n div 10 = 0"
      by blast
    with False show ?thesis by (subst nat_repr.simps) auto
  qed
qed

lemma nat_repr_0: "nat_repr 0 = [48]"
  by (subst nat_repr.simps) (simp add: chars)

lemma digits_val_snoc: "digits_val (ds @ [d]) = 10 * digits_val ds + (d - 48)"
  by (simp add: digits_val_def chars)

lemma digits_val_nat_repr: "digits_val (nat_repr n) = n"
proof (induction n rule: nat_repr.induct)
  case (1 n)
  show ?case
  proof (cases "n < 10")
    case True
    then show ?thesis by (subst nat_repr.simps) (simp add: digits_val_def chars)
  next
    case False
    with 1 have "digits_val (nat_repr (n div 10)) = n div 10" by simp
    with False show ?thesis
      by (subst nat_repr.simps) (simp add: digits_val_snoc chars)
  qed
qed

lemma takeWhile_all: "\<forall>x\<in>set xs. P x \<Longrightarrow> takeWhile P xs = xs"
  by (induction xs) auto

lemma dropWhile_all: "\<forall>x\<in>set xs. P x \<Longrightarrow> dropWhile P xs = []"
  by (induction xs) auto

lemma match_integer_nat_repr:
  "match_integer (sg @ nat_repr n) = Some (sg @ nat_repr n, [])" if "sg = [] \<or> sg = [45] \<and> 0 < n"
proof -
  obtain d ds where r: "nat_repr n = d # ds" and d: "is_digit d" "d = 48 \<longrightarrow> n = 0"
    using nat_repr_Cons by blast
  have ds: "\<forall>c\<in>set ds. is_digit c" using nat_repr_digits[of n] r by simp
  have d45: "d \<noteq> 45" using d by (simp add: is_digit_iff)
  show ?thesis
  proof (cases "n = 0")
    case True
    with that r show ?thesis
      by (auto simp: nat_repr_0 match_integer_def chars)
  next
    case False
    with d have "d \<noteq> 48" by blast
    with that r d ds d45 show ?thesis
      by (auto simp: match_integer_def Let_def chars takeWhile_all dropWhile_all)
  qed
qed

lemma int_repr_sign:
  "int_repr i = (if i < 0 then [45] else []) @ nat_repr (nat \<bar>i\<bar>)"
  by (simp add: int_repr_def chars)

lemma match_number_int_repr: "match_number (int_repr i) = Some (int_repr i, [], [], [])"
proof -
  have "match_integer (int_repr i) = Some (int_repr i, [])"
    unfolding int_repr_sign by (rule match_integer_nat_repr) auto
  then show ?thesis
    by (simp add: match_number_def match_frac_def match_exp_def)
qed

lemma parse_int_int_repr: "parse_int (int_repr i) = i"
proof (cases "i < 0")
  case True
  then show ?thesis
    by (simp add: parse_int_def int_repr_def chars digits_val_nat_repr)
next
  case False
  obtain d ds where r: "nat_repr (nat i) = d # ds" and d: "is_digit d"
    using nat_repr_Cons by blast
  then have "d \<noteq> 45" by (simp add: is_digit_iff)
  moreover have "digits_val (d # ds) = nat i"
    using digits_val_nat_repr[of "nat i"] r by simp
  ultimately show ?thesis
    using False r by (simp add: parse_int_def int_repr_def chars)
qed

lemma match_integer_head:
  assumes "match_integer cs = Some (i, r)"
  shows "\<exists>c cs'. cs = c # cs' \<and> (c = 45 \<or> is_digit c)"
  using assms
  by (cases cs) (auto simp: match_integer_def Let_def chars is_digit_iff split: list.splits if_splits)

lemma match_number_head:
  assumes "match_number cs = Some (i, f, e, r)"
  shows "\<exists>c cs'. cs = c # cs' \<and> (c = 45 \<or> is_digit c)"
  using assms match_integer_head
  by (auto simp: match_number_def split: option.splits prod.splits)

lemma scan_literal_number:
  assumes "match_number cs = Some (i, f, e, r)"
  shows "scan_literal F cs = (if f \<noteq> [] \<or> e \<noteq> [] then Inr (PyFloat (F (i @ f @ e)), r)
                              else Inr (PyInt (parse_int i), r))"
proof -
  from match_number_head[OF assms] obtain c cs' where "cs = c # cs'" "c = 45 \<or> is_digit c"
    by blast
  then show ?thesis using assms
    by (auto simp: scan_literal_def chars is_digit_iff)
qed

lemma match_integer_concat: "match_integer s = Some (i, r) \<Longrightarrow> s = i @ r"
  by (cases s) (auto simp: match_integer_def Let_def split: list.splits if_splits)

lemma match_frac_concat: "match_frac s = (f, r) \<Longrightarrow> s = f @ r"
  by (auto simp: match_frac_def split: list.splits if_splits)

lemma match_exp_concat: "match_exp s = (e, r) \<Longrightarrow> s = e @ r"
  by (auto simp: match_exp_def Let_def split: list.splits if_splits)

lemma match_number_concat:
  assumes "match_number s = Some (i, f, e, r)"
  shows "s = i @ f @ e @ r"
proof -
  from assms obtain r1 r2 where "match_integer s = Some (i, r1)" "match_frac r1 = (f, r2)"
    "match_exp r2 = (e, r)"
    by (auto simp: match_number_def split: option.splits prod.splits)
  then show ?thesis
    by (auto dest!: match_integer_concat match_frac_concat match_exp_concat)
qed

lemma scan_int:
  assumes "delim rest"
  shows "scan_literal F (int_repr i @ rest) = Inr (PyInt i, rest)"
  using match_number_delim[OF assms match_number_int_repr]
  by (simp add: scan_literal_number parse_int_int_repr)

lemma scan_float:
  assumes "delim rest" and "float_literal (R x)" and "F (R x) = Finite x"
  shows "scan_literal F (R x @ rest) = Inr (PyFloat (Finite x), rest)"
proof -
  from float_literalD[OF assms(2)] obtain i f e where
    m: "match_number (R x) = Some (i, f, e, [])" and fe: "f \<noteq> [] \<or> e \<noteq> []"
    by blast
  from match_number_concat[OF m] have "i @ f @ e = R x" by simp
  with match_number_delim[OF assms(1) m] fe assms(3) show ?thesis
    by (simp add: scan_literal_number)
qed

lemma scan_keywords:
  "scan_literal F (str ''null'' @ rest) = Inr (PyNone, rest)"
  "scan_literal F (str ''true'' @ rest) = Inr (PyBool True, rest)"
  "scan_literal F (str ''false'' @ rest) = Inr (PyBool False, rest)"
  "scan_literal F (str ''NaN'' @ rest) = Inr (PyFloat NaN, rest)"
  "scan_literal F (str ''Infinity'' @ rest) = Inr (PyFloat PosInf, rest)"
  "scan_literal F (str ''-Infinity'' @ rest) = Inr (PyFloat NegInf, rest)"
  by (simp_all add: scan_literal_def str_def chars match_number_def match_integer_def
      is_digit_iff)

section \<open>Arrays and objects\<close>

lemma loadable_list_iff: "loadable_list vs \<longleftrightarrow> (\<forall>v\<in>set vs. loadable v)"
  by (induction vs) auto

lemma loadable_dict_iff: "loadable_dict kvs \<longleftrightarrow> (\<forall>kv\<in>set kvs. str_ok (fst kv) \<and> loadable (snd kv))"
  by (induction kvs) auto

lemma value_head_Cons:
  "value_head (c # cs) \<longleftrightarrow> c \<in> {34, 91, 123, 110, 116, 102, 78, 73, 45} \<or> is_digit c"
  by (simp add: value_head_def)

lemma value_head_append: "value_head cs \<Longrightarrow> value_head (cs @ r)"
  by (cases cs) (auto simp: value_head_def)

lemma value_head_skip_ws: "value_head cs \<Longrightarrow> skip_ws cs = cs"
  by (cases cs) (auto simp: value_head_def skip_ws_def is_ws_def is_digit_iff chars)

lemma skip_ws_space: "skip_ws (32 # cs) = skip_ws cs"
  by (simp add: skip_ws_def is_ws_def chars)

lemma iterencode_head:
  assumes "\<forall>x. float_literal (R x)"
  shows "value_head (iterencode R v)"
proof (cases v)
  case (PyInt i)
  obtain d ds where "nat_repr (nat \<bar>i\<bar>) = d # ds" "is_digit d"
    using nat_repr_Cons by blast
  with PyInt show ?thesis
    by (simp add: int_repr_sign value_head_def)
next
  case (PyFloat x)
  show ?thesis
  proof (cases x)
    case (Finite y)
    from assms have "float_literal (R y)" by blast
    from float_literalD[OF this] obtain i f e where "match_number (R y) = Some (i, f, e, [])"
      by blast
    from match_number_head[OF this] Finite PyFloat show ?thesis
      by (auto simp: floatstr_def value_head_def)
  qed (use PyFloat in \<open>simp_all add: floatstr_def value_head_def str_def chars\<close>)
next
  case (PyBool b)
  then show ?thesis by (cases b) (simp_all add: value_head_def str_def chars)
next
  case (PyList vs)
  then show ?thesis by (cases vs) (simp_all add: value_head_def str_def chars)
next
  case (PyDict kvs)
  then show ?thesis
    by (cases kvs) (auto simp: value_head_def str_def chars)
qed (simp_all add: value_head_def str_def chars encode_basestring_ascii_def)

lemma delim_list: "delim (iterencode_list R vs @ rest)"
  by (cases vs) (simp_all add: delim_def str_def chars)

lemma delim_dict: "delim (iterencode_dict R kvs @ rest)"
  by (cases kvs) (auto simp: delim_def str_def chars)

lemma JSONArray_loop_encode:
  assumes "\<forall>v\<in>set (v0 # vs). \<forall>r. delim r \<longrightarrow> scan (iterencode R v @ r) = Inr (v, r)"
    and "\<forall>v\<in>set vs. value_head (iterencode R v)"
    and "length vs < m"
  shows "JSONArray_loop scan m acc (iterencode R v0 @ iterencode_list R vs @ rest)
           = Inr (PyList (acc @ v0 # vs), rest)"
  using assms
proof (induction vs arbitrary: m acc v0)
  case Nil
  then obtain k where m: "m = Suc k" by (cases m) auto
  from Nil have "scan (iterencode R v0 @ 93 # rest) = Inr (v0, 93 # rest)"
    by (simp add: delim_def)
  then show ?case
    by (simp add: m str_def chars array_next_def skip_ws_def is_ws_def)
next
  case (Cons v vs)
  then obtain k where m: "m = Suc k" and k: "length vs < k" by (cases m) auto
  let ?tail = "iterencode R v @ iterencode_list R vs @ rest"
  have d: "delim (44 # 32 # ?tail)" by (simp add: delim_def)
  from Cons.prems(1) d
  have 1: "scan (iterencode R v0 @ 44 # 32 # ?tail) = Inr (v0, 44 # 32 # ?tail)"
    by simp
  from Cons.prems(2) have "value_head ?tail"
    by (simp add: value_head_append)
  then have 2: "array_next (44 # 32 # ?tail) = Inr (True, ?tail)"
    by (simp add: array_next_def skip_ws_def[of "44 # _"] is_ws_def chars skip_ws_space
        value_head_skip_ws)
  have 3: "JSONArray_loop scan k (acc @ [v0]) ?tail = Inr (PyList ((acc @ [v0]) @ v # vs), rest)"
    by (rule Cons.IH) (use Cons.prems k in auto)
  show ?case
    using 1 2 3 by (simp add: m str_def chars)
qed

lemma dict_distinct:
  assumes "distinct (map fst (acc @ kvs))"
  shows "foldl (\<lambda>d kv. AList.update (fst kv) (snd kv) d) acc kvs = acc @ kvs"
  using assms
proof (induction kvs arbitrary: acc)
  case Nil
  then show ?case by simp
next
  case (Cons kv kvs)
  from Cons.prems have "fst kv \<notin> fst ` set acc" by auto
  then have "AList.update (fst kv) (snd kv) acc = acc @ [kv]"
    by (induction acc) auto
  moreover have "foldl (\<lambda>d kv. AList.update (fst kv) (snd kv) d) (acc @ [kv]) kvs
                   = (acc @ [kv]) @ kvs"
    by (rule Cons.IH) (use Cons.prems in simp)
  ultimately show ?case by simp
qed

lemma dict_id: "distinct (map fst kvs) \<Longrightarrow> dict kvs = kvs"
  using dict_distinct[of "[]" kvs] by (simp add: dict_def)

lemma object_key_encode:
  assumes "str_ok k" and "value_head X"
  shows "object_key (concat (map replace k) @ 34 # 58 # 32 # X) = Inr (k, X)"
  using assms
  by (simp add: object_key_def scanstring_encode skip_ws_def[of "58 # _"] is_ws_def chars
      skip_ws_space value_head_skip_ws)

lemma JSONObject_loop_encode:
  assumes "\<forall>kv\<in>set ((k0, v0) # kvs). str_ok (fst kv) \<and> value_head (iterencode R (snd kv)) \<and>
             (\<forall>r. delim r \<longrightarrow> scan (iterencode R (snd kv) @ r) = Inr (snd kv, r))"
    and "length kvs < m"
  shows "JSONObject_loop scan m acc
           (concat (map replace k0) @ 34 # 58 # 32 # iterencode R v0
              @ iterencode_dict R kvs @ rest)
           = Inr (PyDict (dict (acc @ (k0, v0) # kvs)), rest)"
  using assms
proof (induction kvs arbitrary: m acc k0 v0)
  case Nil
  then obtain j where m: "m = Suc j" by (cases m) auto
  from Nil have k0: "str_ok k0" and h: "value_head (iterencode R v0)"
    and s: "scan (iterencode R v0 @ 125 # rest) = Inr (v0, 125 # rest)"
    by (simp_all add: delim_def)
  have 1: "object_key (concat (map replace k0) @ 34 # 58 # 32 # iterencode R v0 @ 125 # rest)
             = Inr (k0, iterencode R v0 @ 125 # rest)"
    using object_key_encode[OF k0 value_head_append[OF h]] by simp
  show ?case
    using 1 s by (simp add: m str_def chars object_next_def skip_ws_def is_ws_def)
next
  case (Cons kv kvs)
  obtain k v where kv: "kv = (k, v)" by (cases kv)
  from Cons.prems obtain j where m: "m = Suc j" and j: "length kvs < j" by (cases m) auto
  let ?tail = "concat (map replace k) @ 34 # 58 # 32 # iterencode R v
                 @ iterencode_dict R kvs @ rest"
  let ?after = "44 # 32 # 34 # ?tail"
  from Cons.prems have k0: "str_ok k0" and h: "value_head (iterencode R v0)"
    and s: "\<forall>r. delim r \<longrightarrow> scan (iterencode R v0 @ r) = Inr (v0, r)"
    by simp_all
  have "delim ?after" by (simp add: delim_def)
  with s have 1: "scan (iterencode R v0 @ ?after) = Inr (v0, ?after)" by blast
  have 0: "object_key (concat (map replace k0) @ 34 # 58 # 32 # iterencode R v0 @ ?after)
             = Inr (k0, iterencode R v0 @ ?after)"
    using object_key_encode[OF k0 value_head_append[OF h]] by simp
  have 2: "object_next ?after = Inr (True, ?tail)"
    by (simp add: object_next_def skip_ws_def is_ws_def chars)
  have 3: "JSONObject_loop scan j (acc @ [(k0, v0)]) ?tail
             = Inr (PyDict (dict ((acc @ [(k0, v0)]) @ (k, v) # kvs)), rest)"
    by (rule Cons.IH) (use Cons.prems j kv in auto)
  show ?case
    using 0 1 2 3 by (simp add: m kv str_def chars encode_basestring_ascii_def)
qed

section \<open>\<open>json.loads\<close> reads what \<open>json.dumps\<close> writes\<close>

lemma iterencode_list_length: "length vs < length (iterencode_list R vs)"
  by (induction vs) (simp_all add: str_def)

lemma iterencode_list_elem:
  "v \<in> set vs \<Longrightarrow> length (iterencode R v) < length (iterencode_list R vs)"
  by (induction vs) (auto simp: str_def)

lemma iterencode_dict_length: "length kvs < length (iterencode_dict R kvs)"
  by (induction kvs) (auto simp: str_def)

lemma iterencode_dict_elem:
  "(k, v) \<in> set kvs \<Longrightarrow> length (iterencode R v) < length (iterencode_dict R kvs)"
  by (induction kvs) (auto simp: str_def)

lemma value_head_not_close: "value_head (c # cs) \<Longrightarrow> c \<noteq> 93 \<and> c \<noteq> 125 \<and> c \<noteq> 0xFEFF"
  by (auto simp: value_head_def is_digit_iff)

lemma JSONArray_encode:
  assumes "value_head cs"
  shows "JSONArray scan m cs = JSONArray_loop scan m [] cs"
proof -
  from assms obtain c cs' where cs: "cs = c # cs'" by (cases cs) (auto simp: value_head_def)
  with assms have "c \<noteq> 93" using value_head_not_close by blast
  with cs value_head_skip_ws[OF assms] show ?thesis
    by (simp add: JSONArray_def chars)
qed

lemma int_repr_Cons: "\<exists>d ds. int_repr i = d # ds \<and> (d = 45 \<or> is_digit d)"
proof -
  obtain d ds where "nat_repr (nat \<bar>i\<bar>) = d # ds" "is_digit d"
    using nat_repr_Cons by blast
  then show ?thesis by (cases "i < 0") (simp_all add: int_repr_sign)
qed

lemma scan_once_encode:
  assumes fl: "\<forall>x. float_literal (R x)" and fr: "\<forall>x. F (R x) = Finite x"
  shows "loadable v \<Longrightarrow> delim rest \<Longrightarrow> length (iterencode R v) \<le> n
           \<Longrightarrow> scan_once F n (iterencode R v @ rest) = Inr (v, rest)"
proof (induction v arbitrary: n rest)
  case PyNone
  then obtain m where "n = Suc m" by (cases n) (auto simp: str_def)
  then show ?case
    using scan_keywords(1)[of F rest] by (simp add: str_def chars)
next
  case (PyBool b)
  then obtain m where "n = Suc m" by (cases n; cases b) (auto simp: str_def)
  then show ?case
    using scan_keywords(2,3)[of F rest] by (cases b) (simp_all add: str_def chars)
next
  case (PyInt i)
  obtain d ds where r: "int_repr i = d # ds" and d: "d = 45 \<or> is_digit d"
    using int_repr_Cons by blast
  with PyInt obtain m where "n = Suc m" by (cases n) auto
  moreover from d have "d \<noteq> 34" "d \<noteq> 123" "d \<noteq> 91" by (auto simp: is_digit_iff)
  ultimately show ?case
    using scan_int[OF PyInt.prems(2), of F i] r by (simp add: chars)
next
  case (PyFloat x)
  show ?case
  proof (cases x)
    case (Finite y)
    from fl have "float_literal (R y)" by blast
    from float_literalD[OF this] obtain i f e where "match_number (R y) = Some (i, f, e, [])"
      by blast
    from match_number_head[OF this] obtain d ds where
      r: "R y = d # ds" and d: "d = 45 \<or> is_digit d" by blast
    with PyFloat.prems Finite obtain m where "n = Suc m" by (cases n) (auto simp: floatstr_def)
    moreover from d have "d \<noteq> 34" "d \<noteq> 123" "d \<noteq> 91" by (auto simp: is_digit_iff)
    moreover have "scan_literal F (R y @ rest) = Inr (PyFloat (Finite y), rest)"
    proof (rule scan_float[where R = R and x = y and F = F and rest = rest])
      show "delim rest" by (rule PyFloat.prems(2))
      show "float_literal (R y)" using fl by blast
      show "F (R y) = Finite y" using fr by blast
    qed
    ultimately show ?thesis
      using r Finite by (simp add: chars floatstr_def)
  next
    case NaN
    with PyFloat.prems obtain m where "n = Suc m" by (cases n) (auto simp: floatstr_def str_def)
    then show ?thesis
      using scan_keywords(4)[of F rest] NaN by (simp add: floatstr_def str_def chars)
  next
    case PosInf
    with PyFloat.prems obtain m where "n = Suc m" by (cases n) (auto simp: floatstr_def str_def)
    then show ?thesis
      using scan_keywords(5)[of F rest] PosInf by (simp add: floatstr_def str_def chars)
  next
    case NegInf
    with PyFloat.prems obtain m where "n = Suc m" by (cases n) (auto simp: floatstr_def str_def)
    then show ?thesis
      using scan_keywords(6)[of F rest] NegInf by (simp add: floatstr_def str_def chars)
  qed
next
  case (PyStr s)
  then obtain m where "n = Suc m" by (cases n) (auto simp: encode_basestring_ascii_def)
  with PyStr.prems(1) show ?case
    by (simp add: encode_basestring_ascii_def chars scan_string_def scanstring_encode)
next
  case (PyList vs)
  show ?case
  proof (cases vs)
    case Nil
    with PyList.prems obtain m where "n = Suc m" by (cases n) (auto simp: str_def)
    with Nil show ?thesis
      by (simp add: str_def chars JSONArray_def skip_ws_def is_ws_def)
  next
    case (Cons v0 vs')
    with PyList.prems obtain m where n: "n = Suc m"
      and m: "length (iterencode R v0) + length (iterencode_list R vs') \<le> m"
      by (cases n) (auto simp: str_def)
    let ?scan = "scan_once F m"
    have ok: "\<forall>v\<in>set (v0 # vs'). \<forall>r. delim r \<longrightarrow> ?scan (iterencode R v @ r) = Inr (v, r)"
    proof (intro ballI allI impI)
      fix v r assume v: "v \<in> set (v0 # vs')" and r: "delim r"
      from v PyList.prems(1) Cons have "loadable v" by (auto simp: loadable_list_iff)
      moreover from v m have "length (iterencode R v) \<le> m"
        using iterencode_list_elem[of v vs' R] by auto
      ultimately show "?scan (iterencode R v @ r) = Inr (v, r)"
        using PyList.IH[of v r m] v Cons r by simp
    qed
    have heads: "\<forall>v\<in>set vs'. value_head (iterencode R v)"
      using iterencode_head[OF fl] by blast
    have len: "length vs' < m"
      using m iterencode_list_length[of vs' R] by simp
    have "JSONArray_loop ?scan m [] (iterencode R v0 @ iterencode_list R vs' @ rest)
            = Inr (PyList ([] @ v0 # vs'), rest)"
      by (rule JSONArray_loop_encode[OF ok heads len])
    moreover have "value_head (iterencode R v0 @ iterencode_list R vs' @ rest)"
      by (rule value_head_append[OF iterencode_head[OF fl]])
    ultimately show ?thesis
      using n Cons by (simp add: str_def chars JSONArray_encode)
  qed
next
  case (PyDict kvs)
  show ?case
  proof (cases kvs)
    case Nil
    with PyDict.prems obtain m where "n = Suc m" by (cases n) (auto simp: str_def)
    with Nil show ?thesis
      by (simp add: str_def chars JSONObject_def skip_ws_def is_ws_def)
  next
    case (Cons kv0 kvs')
    obtain k0 v0 where kv0: "kv0 = (k0, v0)" by (cases kv0)
    with PyDict.prems Cons obtain m where n: "n = Suc m"
      and m: "length (iterencode R v0) + length (iterencode_dict R kvs') \<le> m"
      by (cases n) (auto simp: str_def)
    let ?scan = "scan_once F m"
    have ok: "\<forall>kv\<in>set ((k0, v0) # kvs'). str_ok (fst kv) \<and> value_head (iterencode R (snd kv)) \<and>
             (\<forall>r. delim r \<longrightarrow> ?scan (iterencode R (snd kv) @ r) = Inr (snd kv, r))"
    proof (intro ballI conjI allI impI)
      fix kv assume kv: "kv \<in> set ((k0, v0) # kvs')"
      from kv PyDict.prems(1) Cons kv0 show "str_ok (fst kv)"
        by (auto simp: loadable_dict_iff)
      show "value_head (iterencode R (snd kv))" by (rule iterencode_head[OF fl])
      fix r assume r: "delim r"
      from kv PyDict.prems(1) Cons kv0 have "loadable (snd kv)" by (auto simp: loadable_dict_iff)
      moreover from kv m have "length (iterencode R (snd kv)) \<le> m"
        using iterencode_dict_elem[of "fst kv" "snd kv" kvs' R] by auto
      moreover from kv Cons kv0 have "kv \<in> set kvs" "snd kv \<in> Basic_BNFs.snds kv"
        by (auto simp: snds.simps)
      ultimately show "?scan (iterencode R (snd kv) @ r) = Inr (snd kv, r)"
        using PyDict.IH[of kv "snd kv" r m] r by simp
    qed
    have len: "length kvs' < m"
      using m iterencode_dict_length[of kvs' R] by simp
    have "JSONObject_loop ?scan m []
           (concat (map replace k0) @ 34 # 58 # 32 # iterencode R v0
              @ iterencode_dict R kvs' @ rest)
           = Inr (PyDict (dict ([] @ (k0, v0) # kvs')), rest)"
      by (rule JSONObject_loop_encode[OF ok len])
    moreover from PyDict.prems(1) Cons kv0 have "dict ((k0, v0) # kvs') = (k0, v0) # kvs'"
      by (intro dict_id) simp
    ultimately show ?thesis
      using n Cons kv0
      by (simp add: str_def chars JSONObject_def skip_ws_def is_ws_def
          encode_basestring_ascii_def)
  qed
qed

lemma json_loads_dumps:
  assumes fl: "\<forall>x. float_literal (R x)" and fr: "\<forall>x. F (R x) = Finite x" and "loadable v"
  shows "json_loads F (json_dumps R v) = Inr v"
proof -
  let ?s = "iterencode R v"
  have h: "value_head ?s" by (rule iterencode_head[OF fl])
  then obtain c cs where s: "?s = c # cs" by (cases ?s) (auto simp: value_head_def)
  with h have "c \<noteq> 0xFEFF" using value_head_not_close by metis
  then have bom: "take 1 ?s \<noteq> [0xFEFF]" using s by simp
  have "delim []" by (simp add: delim_def)
  from scan_once_encode[OF fl fr assms(3) this, of "Suc (length ?s)"]
  have "scan_once F (Suc (length ?s)) ?s = Inr (v, [])" by simp
  with bom value_head_skip_ws[OF h] show ?thesis
    by (simp add: json_loads_def json_dumps_def skip_ws_def[of "[]"])
qed

section \<open>What \<open>json.loads\<close> builds\<close>

lemma valid_text_iff: "valid_text cs \<longleftrightarrow> (\<forall>c\<in>set cs. scalar_value c)"
  by (simp add: valid_text_def list_all_iff)

lemma valid_text_subset: "valid_text cs \<Longrightarrow> set r \<subseteq> set cs \<Longrightarrow> valid_text r"
  by (auto simp: valid_text_iff)

lemma hexval_bound: "hexval c = Some d \<Longrightarrow> d < 16"
  by (auto simp: hexval_def chars split: if_splits)

lemma decode_bound:
  assumes "decode_uXXXX r = Some u"
  shows "u < 0x10000 \<and> 4 \<le> length r"
proof -
  from assms obtain a b c d r' x y z w where r: "r = a # b # c # d # r'"
    and h: "hexval a = Some x" "hexval b = Some y" "hexval c = Some z" "hexval d = Some w"
    and u: "u = ((x * 16 + y) * 16 + z) * 16 + w"
    by (auto simp: decode_uXXXX_def split: list.splits option.splits)
  from h have "x < 16" "y < 16" "z < 16" "w < 16" by (auto dest: hexval_bound)
  with u r show ?thesis by simp
qed

lemma BACKSLASH_range:
  "BACKSLASH e = Some x \<Longrightarrow> x < 0x80"
  by (auto simp: BACKSLASH_def chars split: if_splits)

lemma str_ok_Cons:
  "str_ok (c # s) \<longleftrightarrow> c < 0x110000 \<and> str_ok s \<and>
     \<not> (is_high_surrogate c \<and> (\<exists>d s'. s = d # s' \<and> is_low_surrogate d))"
  by (cases s) auto

text \<open>A string read by \<open>scanstring\<close> from a text of scalar values: no high surrogate is
  followed by a low surrogate, and a low surrogate at its head was written as an escape.\<close>

lemma scanstring_sound:
  "scanstring cs = Inr (s, r) \<Longrightarrow> valid_text cs \<Longrightarrow>
     str_ok s \<and> length r < length cs \<and> set r \<subseteq> set cs \<and>
     (\<forall>d s'. s = d # s' \<and> is_low_surrogate d
        \<longrightarrow> take 2 cs = [92, 117] \<and> decode_uXXXX (drop 2 cs) = Some d)"
proof (induction cs arbitrary: s r rule: length_induct)
  case (1 cs)
  note IH = "1.IH"[rule_format]
  note res = "1.prems"(1) and valid = "1.prems"(2)
  from res obtain c cs1 where cs: "cs = c # cs1"
    by (cases cs) (auto simp: scanstring.simps)
  have sub: "\<And>t. set t \<subseteq> set cs \<Longrightarrow> valid_text t"
    using valid valid_text_subset by blast
  consider (quote) "c = 34" | (esc) "c = 92" | (ctl) "c \<noteq> 34" "c \<noteq> 92" "c < 0x20"
    | (plain) "c \<noteq> 34" "c \<noteq> 92" "0x20 \<le> c"
    by fastforce
  then show ?case
  proof cases
    case quote
    with res cs show ?thesis by (auto simp: scanstring_quote)
  next
    case ctl
    with res cs show ?thesis by (simp add: scanstring.simps chars)
  next
    case plain
    with res cs obtain s1 where s1: "scanstring cs1 = Inr (s1, r)" and s: "s = c # s1"
      by (auto simp: scanstring_plain append_char_def split: sum.splits)
    from IH[OF _ s1] cs sub[of cs1]
    have a: "str_ok s1" "length r < length cs1" "set r \<subseteq> set cs1" by auto
    from valid cs have "scalar_value c" by (simp add: valid_text_iff)
    then have "c < 0x110000" "\<not> is_high_surrogate c" "\<not> is_low_surrogate c"
      by (auto simp: scalar_value_def is_high_surrogate_def is_low_surrogate_def)
    with a s cs show ?thesis by (auto simp del: str_ok.simps simp: str_ok_Cons)
  next
    case esc
    with res cs obtain e cs2 where cs1: "cs1 = e # cs2"
      by (cases cs1) (auto simp: scanstring.simps chars)
    show ?thesis
    proof (cases "e = 117")
      case False
      with res cs cs1 esc obtain x where x: "BACKSLASH e = Some x"
        by (cases "BACKSLASH e") (auto simp: scanstring.simps chars)
      with res cs cs1 esc False obtain s1 where
        s1: "scanstring cs2 = Inr (s1, r)" and s: "s = x # s1"
        by (auto simp: scanstring_esc append_char_def split: sum.splits)
      from IH[OF _ s1] cs cs1 sub[of cs2]
      have a: "str_ok s1" "length r < length cs2" "set r \<subseteq> set cs2" by auto
      from BACKSLASH_range[OF x]
      have "x < 0x110000" "\<not> is_high_surrogate x" "\<not> is_low_surrogate x"
        by (auto simp: is_high_surrogate_def is_low_surrogate_def)
      with a s cs cs1 show ?thesis by (auto simp del: str_ok.simps simp: str_ok_Cons)
    next
      case True
      with res cs cs1 esc obtain uni where uni: "decode_uXXXX cs2 = Some uni"
        by (cases "decode_uXXXX cs2") (auto simp: scanstring.simps chars)
      from decode_bound[OF uni] have ub: "uni < 0x10000" and len: "4 \<le> length cs2" by auto
      have head: "take 2 cs = [92, 117]" "decode_uXXXX (drop 2 cs) = Some uni"
        using cs cs1 esc True uni by simp_all
      show ?thesis
      proof (cases "is_high_surrogate uni \<and> take 2 (drop 4 cs2) = [92, 117]")
        case pairq: True
        with res cs cs1 esc \<open>e = 117\<close> uni obtain u2 where u2: "decode_uXXXX (drop 6 cs2) = Some u2"
          by (cases "decode_uXXXX (drop 6 cs2)")
             (auto simp: scanstring.simps chars is_high_surrogate_def)
        show ?thesis
        proof (cases "is_low_surrogate u2")
          case low: True
          let ?c = "0x10000 + (push_bit 10 (uni - 0xD800) OR (u2 - 0xDC00))"
          from scanstring_pair[OF uni conjunct1[OF pairq] conjunct2[OF pairq] u2 low]
            res cs cs1 esc \<open>e = 117\<close>
          obtain s1 where s1: "scanstring (drop 10 cs2) = Inr (s1, r)" and s: "s = ?c # s1"
            by (auto simp: append_char_def split: sum.splits)
          have "set (drop 10 cs2) \<subseteq> set cs" using cs cs1 by (auto dest: in_set_dropD)
          from IH[OF _ s1] cs cs1 sub[OF this]
          have a: "str_ok s1" "length r < length (drop 10 cs2)" "set r \<subseteq> set (drop 10 cs2)"
            by auto
          from pairq low have "uni - 0xD800 < 1024" "u2 - 0xDC00 < 1024"
            by (auto simp: is_high_surrogate_def is_low_surrogate_def)
          then have "?c = 0x10000 + ((uni - 0xD800) * 1024 + (u2 - 0xDC00))"
            and "(uni - 0xD800) * 1024 + (u2 - 0xDC00) < 0x100000"
            by (simp_all add: join_surrogates)
          then have "?c < 0x110000" "\<not> is_high_surrogate ?c" "\<not> is_low_surrogate ?c"
            by (auto simp: is_high_surrogate_def is_low_surrogate_def)
          with a s cs cs1 show ?thesis
            by (auto simp del: str_ok.simps simp: str_ok_Cons dest: in_set_dropD)
        next
          case notlow: False
          have "scanstring (92 # 117 # cs2) = append_char uni (scanstring (drop 4 cs2))"
            by (rule scanstring_u[OF uni]) (use u2 notlow in blast)
          with res cs cs1 esc \<open>e = 117\<close>
          obtain s1 where s1: "scanstring (drop 4 cs2) = Inr (s1, r)" and s: "s = uni # s1"
            by (auto simp: append_char_def split: sum.splits)
          have "set (drop 4 cs2) \<subseteq> set cs" using cs cs1 by (auto dest: in_set_dropD)
          from IH[OF _ s1] cs cs1 sub[OF this]
          have a: "str_ok s1" "length r < length (drop 4 cs2)" "set r \<subseteq> set (drop 4 cs2)"
            and h: "\<forall>d s'. s1 = d # s' \<and> is_low_surrogate d
              \<longrightarrow> take 2 (drop 4 cs2) = [92, 117]
                  \<and> decode_uXXXX (drop 2 (drop 4 cs2)) = Some d"
            by auto
          have "\<not> (\<exists>d s'. s1 = d # s' \<and> is_low_surrogate d)"
            using h u2 notlow by auto
          with a s ub cs cs1 head show ?thesis
            by (auto simp del: str_ok.simps simp: str_ok_Cons dest: in_set_dropD)
        qed
      next
        case nopair: False
        have "scanstring (92 # 117 # cs2) = append_char uni (scanstring (drop 4 cs2))"
          by (rule scanstring_u[OF uni]) (use nopair in blast)
        with res cs cs1 esc \<open>e = 117\<close>
        obtain s1 where s1: "scanstring (drop 4 cs2) = Inr (s1, r)" and s: "s = uni # s1"
          by (auto simp: append_char_def split: sum.splits)
        have "set (drop 4 cs2) \<subseteq> set cs" using cs cs1 by (auto dest: in_set_dropD)
        from IH[OF _ s1] cs cs1 sub[OF this]
        have a: "str_ok s1" "length r < length (drop 4 cs2)" "set r \<subseteq> set (drop 4 cs2)"
          and h: "\<forall>d s'. s1 = d # s' \<and> is_low_surrogate d
            \<longrightarrow> take 2 (drop 4 cs2) = [92, 117]
                \<and> decode_uXXXX (drop 2 (drop 4 cs2)) = Some d"
          by auto
        have "\<not> (is_high_surrogate uni \<and> (\<exists>d s'. s1 = d # s' \<and> is_low_surrogate d))"
          using h nopair by auto
        with a s ub cs cs1 head show ?thesis
          by (auto simp del: str_ok.simps simp: str_ok_Cons dest: in_set_dropD)
      qed
    qed
  qed
qed

lemma consumes_Inl [simp]: "consumes (Inl e) cs \<longleftrightarrow> e = JSONDecodeError"
  by (simp add: consumes_def)

lemma consumes_Inr [simp]:
  "consumes (Inr (x, r)) cs \<longleftrightarrow> length r < length cs \<and> set r \<subseteq> set cs"
  by (simp add: consumes_def)

lemma consumes_append_char:
  assumes "consumes res Y" and "length Y \<le> length cs" and "set Y \<subseteq> set cs"
  shows "consumes (append_char x res) cs"
  using assms by (auto simp: consumes_def append_char_def split: sum.splits)

lemma scanstring_consumes: "consumes (scanstring cs) cs"
proof (induction cs rule: length_induct)
  case (1 cs)
  note IH = "1.IH"[rule_format]
  have rec: "consumes (append_char x (scanstring Y)) cs"
    if "length Y < length cs" "set Y \<subseteq> set cs" for x Y
    using consumes_append_char[OF IH[OF that(1)]] that by simp
  show ?case
  proof (cases cs)
    case Nil
    then show ?thesis by (simp add: scanstring.simps)
  next
    case (Cons c cs1)
    note cs = Cons
    consider (quote) "c = 34" | (esc) "c = 92" | (ctl) "c \<noteq> 34" "c \<noteq> 92" "c < 0x20"
      | (plain) "c \<noteq> 34" "c \<noteq> 92" "0x20 \<le> c"
      by fastforce
    then show ?thesis
    proof cases
      case quote
      with cs show ?thesis by (auto simp: scanstring_quote)
    next
      case ctl
      with cs show ?thesis by (simp add: scanstring.simps chars)
    next
      case plain
      with cs rec[of cs1 c] show ?thesis by (auto simp: scanstring_plain)
    next
      case esc
      show ?thesis
      proof (cases cs1)
        case Nil
        with cs esc show ?thesis by (simp add: scanstring.simps chars)
      next
        case (Cons e cs2)
        note cs1 = Cons
        have d: "length (drop n cs2) < length cs" "set (drop n cs2) \<subseteq> set cs" for n
          using cs cs1 by (auto dest: in_set_dropD)
        show ?thesis
        proof (cases "e = 117")
          case False
          show ?thesis
          proof (cases "BACKSLASH e")
            case None
            with cs cs1 esc False show ?thesis by (simp add: scanstring.simps chars)
          next
            case (Some x)
            with cs cs1 esc False rec[of cs2 x] show ?thesis
              by (auto simp: scanstring_esc)
          qed
        next
          case True
          show ?thesis
          proof (cases "decode_uXXXX cs2")
            case None
            with cs cs1 esc True show ?thesis by (simp add: scanstring.simps chars)
          next
            case (Some uni)
            show ?thesis
            proof (cases "is_high_surrogate uni \<and> take 2 (drop 4 cs2) = [92, 117]")
              case pairq: True
              show ?thesis
              proof (cases "decode_uXXXX (drop 6 cs2)")
                case None
                with cs cs1 esc True Some pairq show ?thesis
                  by (simp add: scanstring.simps chars is_high_surrogate_def)
              next
                case u2: (Some u2)
                show ?thesis
                proof (cases "is_low_surrogate u2")
                  case low: True
                  from scanstring_pair[OF Some conjunct1[OF pairq] conjunct2[OF pairq] u2 low]
                    cs cs1 esc True rec[OF d[of 10]]
                  show ?thesis by simp
                next
                  case notlow: False
                  have "scanstring (92 # 117 # cs2)
                          = append_char uni (scanstring (drop 4 cs2))"
                    by (rule scanstring_u[OF Some]) (use u2 notlow in blast)
                  with cs cs1 esc True rec[OF d[of 4]] show ?thesis by simp
                qed
              qed
            next
              case nopair: False
              have "scanstring (92 # 117 # cs2) = append_char uni (scanstring (drop 4 cs2))"
                by (rule scanstring_u[OF Some]) (use nopair in blast)
              with cs cs1 esc True rec[OF d[of 4]] show ?thesis by simp
            qed
          qed
        qed
      qed
    qed
  qed
qed

lemma skip_ws_length: "length (skip_ws cs) \<le> length cs"
  by (simp add: skip_ws_def length_dropWhile_le)

lemma skip_ws_set: "set (skip_ws cs) \<subseteq> set cs"
  by (auto simp: skip_ws_def dest: set_dropWhileD)

lemma skip_ws_Cons:
  "skip_ws cs = c # r \<Longrightarrow> length r < length cs \<and> set r \<subseteq> set cs \<and> c \<in> set cs"
  using skip_ws_length[of cs] skip_ws_set[of cs] by auto

lemma scan_string_consumes: "consumes (scan_string cs) cs"
  using scanstring_consumes[of cs]
  by (auto simp: scan_string_def consumes_def split: sum.splits)

lemma match_integer_nonempty: "match_integer cs = Some (i, r) \<Longrightarrow> i \<noteq> []"
  by (auto simp: match_integer_def Let_def split: list.splits if_splits)

lemma match_number_consumes:
  assumes "match_number cs = Some (i, f, e, r)"
  shows "length r < length cs \<and> set r \<subseteq> set cs"
proof -
  from assms have "i \<noteq> []"
    by (auto simp: match_number_def split: option.splits prod.splits
        dest: match_integer_nonempty)
  with match_number_concat[OF assms] show ?thesis
    by (cases i) auto
qed

lemma drop_consumes:
  "0 < n \<Longrightarrow> cs \<noteq> [] \<Longrightarrow> length (drop n cs) < length cs \<and> set (drop n cs) \<subseteq> set cs"
  by (auto dest: in_set_dropD)

lemma scan_literal_consumes: "consumes (scan_literal F cs) cs"
proof (cases cs)
  case Nil
  then show ?thesis by (simp add: scan_literal_def)
next
  case (Cons c cs1)
  then have ne: "cs \<noteq> []" by simp
  show ?thesis
  proof (cases "match_number cs")
    case None
    then show ?thesis
      using drop_consumes[OF _ ne, of 3] drop_consumes[OF _ ne, of 4]
        drop_consumes[OF _ ne, of 5] drop_consumes[OF _ ne, of 8] drop_consumes[OF _ ne, of 9]
      unfolding Cons by (auto simp: scan_literal_def chars str_def)
  next
    case (Some m)
    obtain i f e r where m: "m = (i, f, e, r)" by (cases m)
    with Some match_number_consumes[of cs i f e r] show ?thesis
      using drop_consumes[OF _ ne, of 4] drop_consumes[OF _ ne, of 5]
      unfolding Cons by (auto simp: scan_literal_def chars str_def)
  qed
qed

lemma object_key_consumes: "consumes (object_key cs) cs"
proof (cases "scanstring cs")
  case (Inl e)
  with scanstring_consumes[of cs] show ?thesis by (simp add: object_key_def)
next
  case (Inr p)
  obtain k r where p: "p = (k, r)" by (cases p)
  with Inr scanstring_consumes[of cs] have r: "length r < length cs" "set r \<subseteq> set cs"
    by simp_all
  show ?thesis
  proof (cases "skip_ws r")
    case Nil
    with Inr p show ?thesis by (simp add: object_key_def)
  next
    case (Cons colon r1)
    from skip_ws_Cons[OF Cons] have "length r1 < length r" "set r1 \<subseteq> set r" by auto
    with r skip_ws_length[of r1] skip_ws_set[of r1] Inr p Cons show ?thesis
      by (auto simp: object_key_def)
  qed
qed

lemma object_next_consumes: "consumes (object_next cs) cs"
proof (cases "skip_ws cs")
  case Nil
  then show ?thesis by (simp add: object_next_def)
next
  case (Cons c r)
  from skip_ws_Cons[OF Cons] have r: "length r < length cs" "set r \<subseteq> set cs" by auto
  show ?thesis
  proof (cases "skip_ws r")
    case Nil
    with Cons r show ?thesis by (simp add: object_next_def)
  next
    case c2: (Cons q r')
    from skip_ws_Cons[OF c2] r have "length r' < length cs" "set r' \<subseteq> set cs" by auto
    with Cons c2 r show ?thesis by (simp add: object_next_def)
  qed
qed

lemma array_next_consumes: "consumes (array_next cs) cs"
proof (cases "skip_ws cs")
  case Nil
  then show ?thesis by (simp add: array_next_def)
next
  case (Cons c r)
  from skip_ws_Cons[OF Cons] have r: "length r < length cs" "set r \<subseteq> set cs" by auto
  with Cons skip_ws_length[of r] skip_ws_set[of r] show ?thesis
    by (auto simp: array_next_def)
qed

lemma consumes_InrD:
  "consumes res cs \<Longrightarrow> res = Inr (x, r) \<Longrightarrow> length r < length cs \<and> set r \<subseteq> set cs"
  by simp

lemma consumes_InlD: "consumes res cs \<Longrightarrow> res = Inl e \<Longrightarrow> e = JSONDecodeError"
  by simp

lemma loadable_dict_append: "loadable_dict (xs @ ys) \<longleftrightarrow> loadable_dict xs \<and> loadable_dict ys"
  by (auto simp: loadable_dict_iff)

lemma loadable_list_append: "loadable_list (xs @ ys) \<longleftrightarrow> loadable_list xs \<and> loadable_list ys"
  by (auto simp: loadable_list_iff)

lemma loadable_dict_update:
  "loadable_dict kvs \<Longrightarrow> str_ok k \<Longrightarrow> loadable v \<Longrightarrow> loadable_dict (AList.update k v kvs)"
  by (induction kvs) auto

lemma loadable_dict_foldl:
  "loadable_dict acc \<Longrightarrow> loadable_dict ps
     \<Longrightarrow> loadable_dict (foldl (\<lambda>d kv. AList.update (fst kv) (snd kv) d) acc ps)"
  by (induction ps arbitrary: acc) (auto simp: loadable_dict_update)

lemma distinct_foldl:
  "distinct (map fst acc)
     \<Longrightarrow> distinct (map fst (foldl (\<lambda>d kv. AList.update (fst kv) (snd kv) d) acc ps))"
  by (induction ps arbitrary: acc) (auto simp: distinct_update)

lemma loadable_dict_dict: "loadable_dict ps \<Longrightarrow> loadable (PyDict (dict ps))"
  by (simp add: dict_def loadable_dict_foldl distinct_foldl)

lemma sound_scanD:
  "sound_scan scan \<Longrightarrow> scan cs = Inr (v, r)
     \<Longrightarrow> length r < length cs \<and> set r \<subseteq> set cs \<and> (valid_text cs \<longrightarrow> loadable v)"
  by (simp add: sound_scan_def)

lemma JSONArray_loop_sound:
  assumes "sound_scan scan"
  shows "JSONArray_loop scan m acc cs = Inr (v, r)
     \<Longrightarrow> length r < length cs \<and> set r \<subseteq> set cs \<and> (valid_text cs \<longrightarrow> loadable_list acc \<longrightarrow> loadable v)"
proof (induction m arbitrary: acc cs)
  case 0
  then show ?case by simp
next
  case (Suc m)
  from Suc.prems obtain x r1 more r2 where
    1: "scan cs = Inr (x, r1)" and 2: "array_next r1 = Inr (more, r2)"
    and 3: "if more then JSONArray_loop scan m (acc @ [x]) r2 = Inr (v, r)
            else v = PyList (acc @ [x]) \<and> r = r2"
    by (auto split: sum.splits prod.splits if_splits)
  from sound_scanD[OF assms 1] have a: "length r1 < length cs" "set r1 \<subseteq> set cs"
    "valid_text cs \<longrightarrow> loadable x" by auto
  from array_next_consumes[of r1] 2 have b: "length r2 < length r1" "set r2 \<subseteq> set r1"
    by simp_all
  show ?case
  proof (cases more)
    case True
    with 3 Suc.IH[of "acc @ [x]" r2]
    have "length r < length r2 \<and> set r \<subseteq> set r2
            \<and> (valid_text r2 \<longrightarrow> loadable_list (acc @ [x]) \<longrightarrow> loadable v)"
      by simp
    moreover have "valid_text cs \<longrightarrow> valid_text r2"
      using a b valid_text_subset by (metis subset_trans)
    ultimately show ?thesis
      using a b by (auto simp: loadable_list_append)
  next
    case False
    with 3 a b show ?thesis by (auto simp: loadable_list_append)
  qed
qed

lemma JSONObject_loop_sound:
  assumes "sound_scan scan"
  shows "JSONObject_loop scan m acc cs = Inr (v, r)
     \<Longrightarrow> length r < length cs \<and> set r \<subseteq> set cs \<and> (valid_text cs \<longrightarrow> loadable_dict acc \<longrightarrow> loadable v)"
proof (induction m arbitrary: acc cs)
  case 0
  then show ?case by simp
next
  case (Suc m)
  from Suc.prems obtain k r0 x r1 more r2 where
    0: "object_key cs = Inr (k, r0)" and
    1: "scan r0 = Inr (x, r1)" and 2: "object_next r1 = Inr (more, r2)"
    and 3: "if more then JSONObject_loop scan m (acc @ [(k, x)]) r2 = Inr (v, r)
            else v = PyDict (dict (acc @ [(k, x)])) \<and> r = r2"
    by (auto split: sum.splits prod.splits if_splits)
  from object_key_consumes[of cs] 0 have k: "length r0 < length cs" "set r0 \<subseteq> set cs"
    by simp_all
  have kok: "valid_text cs \<longrightarrow> str_ok k"
  proof
    assume v: "valid_text cs"
    from 0 obtain r' where "scanstring cs = Inr (k, r')"
      by (auto simp: object_key_def split: sum.splits prod.splits list.splits if_splits)
    from scanstring_sound[OF this v] show "str_ok k" by simp
  qed
  from sound_scanD[OF assms 1] have a: "length r1 < length r0" "set r1 \<subseteq> set r0"
    "valid_text r0 \<longrightarrow> loadable x" by auto
  from object_next_consumes[of r1] 2 have b: "length r2 < length r1" "set r2 \<subseteq> set r1"
    by simp_all
  have vx: "valid_text cs \<longrightarrow> loadable x" using a(3) k(2) valid_text_subset by blast
  show ?case
  proof (cases more)
    case True
    with 3 Suc.IH[of "acc @ [(k, x)]" r2]
    have "length r < length r2 \<and> set r \<subseteq> set r2
            \<and> (valid_text r2 \<longrightarrow> loadable_dict (acc @ [(k, x)]) \<longrightarrow> loadable v)"
      by simp
    moreover have "valid_text cs \<longrightarrow> valid_text r2"
      using a b k valid_text_subset by (metis subset_trans)
    ultimately show ?thesis
      using a b k kok vx by (auto simp: loadable_dict_append)
  next
    case False
    with 3 have v: "v = PyDict (dict (acc @ [(k, x)]))" and r: "r = r2" by simp_all
    have "valid_text cs \<longrightarrow> loadable_dict acc \<longrightarrow> loadable v"
    proof (intro impI)
      assume "valid_text cs" "loadable_dict acc"
      with kok vx have "loadable_dict (acc @ [(k, x)])" by (simp add: loadable_dict_append)
      then show "loadable v" unfolding v by (rule loadable_dict_dict)
    qed
    with r a b k show ?thesis by auto
  qed
qed

lemma JSONArray_sound:
  assumes "sound_scan scan" and "JSONArray scan m cs = Inr (v, r)"
  shows "length r \<le> length cs \<and> set r \<subseteq> set cs \<and> (valid_text cs \<longrightarrow> loadable v)"
proof (cases "skip_ws cs")
  case Nil
  with assms(2) have "JSONArray_loop scan m [] [] = Inr (v, r)" by (simp add: JSONArray_def)
  from JSONArray_loop_sound[OF assms(1) this] show ?thesis by simp
next
  case (Cons c r0)
  show ?thesis
  proof (cases "c = 93")
    case True
    with assms(2) Cons skip_ws_Cons[OF Cons] show ?thesis
      by (auto simp: JSONArray_def chars)
  next
    case False
    with assms(2) Cons have "JSONArray_loop scan m [] (skip_ws cs) = Inr (v, r)"
      by (simp add: JSONArray_def chars)
    from JSONArray_loop_sound[OF assms(1) this] skip_ws_length[of cs] skip_ws_set[of cs]
    show ?thesis by (auto dest: valid_text_subset)
  qed
qed

lemma JSONObject_sound:
  assumes "sound_scan scan" and "JSONObject scan m cs = Inr (v, r)"
  shows "length r \<le> length cs \<and> set r \<subseteq> set cs \<and> (valid_text cs \<longrightarrow> loadable v)"
proof (cases "skip_ws cs")
  case Nil
  with assms(2) show ?thesis by (simp add: JSONObject_def)
next
  case (Cons c r0)
  from skip_ws_Cons[OF Cons] have r0: "length r0 < length cs" "set r0 \<subseteq> set cs" by auto
  show ?thesis
  proof (cases "c = 125")
    case True
    with assms(2) Cons r0 show ?thesis by (auto simp: JSONObject_def chars)
  next
    case False
    with assms(2) Cons have "JSONObject_loop scan m [] r0 = Inr (v, r)"
      by (auto simp: JSONObject_def chars split: if_splits)
    from JSONObject_loop_sound[OF assms(1) this] r0
    show ?thesis by (auto dest: valid_text_subset)
  qed
qed

lemma scan_literal_loadable: "scan_literal F cs = Inr (v, r) \<Longrightarrow> loadable v"
  by (auto simp: scan_literal_def split: list.splits if_splits option.splits prod.splits)

lemma scan_once_sound: "sound_scan (scan_once F n)"
proof (induction n)
  case 0
  show ?case by (simp add: sound_scan_def)
next
  case (Suc n)
  show ?case
    unfolding sound_scan_def
  proof (intro allI impI)
    fix cs v r assume res: "scan_once F (Suc n) cs = Inr (v, r)"
    then obtain c cs1 where cs: "cs = c # cs1" by (cases cs) auto
    have v1: "valid_text cs \<Longrightarrow> valid_text cs1"
      using cs by (simp add: valid_text_iff)
    consider (str) "c = 34" | (obj) "c = 123" | (arr) "c = 91"
      | (lit) "c \<noteq> 34" "c \<noteq> 123" "c \<noteq> 91"
      by blast
    then show "length r < length cs \<and> set r \<subseteq> set cs \<and> (valid_text cs \<longrightarrow> loadable v)"
    proof cases
      case str
      with res cs have s: "scan_string cs1 = Inr (v, r)" by (simp add: chars)
      then obtain s' where s': "scanstring cs1 = Inr (s', r)" "v = PyStr s'"
        by (auto simp: scan_string_def split: sum.splits prod.splits)
      from scanstring_consumes[of cs1] s'(1)
      have "length r < length cs1" "set r \<subseteq> set cs1" by simp_all
      moreover have "valid_text cs \<longrightarrow> loadable v"
        using scanstring_sound[OF s'(1)] v1 s'(2) by auto
      ultimately show ?thesis using cs by auto
    next
      case obj
      with res cs have "JSONObject (scan_once F n) n cs1 = Inr (v, r)" by (simp add: chars)
      from JSONObject_sound[OF Suc this] v1 cs show ?thesis by auto
    next
      case arr
      with res cs have "JSONArray (scan_once F n) n cs1 = Inr (v, r)" by (simp add: chars)
      from JSONArray_sound[OF Suc this] v1 cs show ?thesis by auto
    next
      case lit
      with res cs have l: "scan_literal F cs = Inr (v, r)" by (simp add: chars)
      from scan_literal_consumes[of F cs] l scan_literal_loadable[OF l] show ?thesis by simp
    qed
  qed
qed

lemma json_loads_loadable:
  assumes "json_loads F s = Inr v" and "valid_text s"
  shows "loadable v"
proof -
  from assms(1) obtain r where "scan_once F (Suc (length s)) (skip_ws s) = Inr (v, r)"
    by (auto simp: json_loads_def split: if_splits sum.splits prod.splits)
  from sound_scanD[OF scan_once_sound this] assms(2) skip_ws_set[of s]
  show ?thesis by (auto dest: valid_text_subset)
qed

section \<open>The budget of \<open>scan_once\<close>, and the documents after the loop\<close>

lemma decode_error_only_simps [simp]:
  "decode_error_only (Inl e) \<longleftrightarrow> e = JSONDecodeError"
  "decode_error_only (Inr x)"
  by (simp_all add: decode_error_only_def)

lemma fuelled_scanD: "fuelled_scan scan n \<Longrightarrow> length cs < n \<Longrightarrow> decode_error_only (scan cs)"
  by (simp add: fuelled_scan_def)

lemma consumes_decode_error: "consumes res cs \<Longrightarrow> decode_error_only res"
  by (auto simp: consumes_def decode_error_only_def split: sum.splits)

lemma JSONArray_loop_fuel:
  assumes "sound_scan scan" and "fuelled_scan scan n"
  shows "length cs < m \<Longrightarrow> length cs < n \<Longrightarrow> decode_error_only (JSONArray_loop scan m acc cs)"
proof (induction m arbitrary: acc cs)
  case 0
  then show ?case by simp
next
  case (Suc m)
  show ?case
  proof (cases "scan cs")
    case (Inl e)
    with fuelled_scanD[OF assms(2) Suc.prems(2)] show ?thesis by auto
  next
    case (Inr p)
    obtain x r1 where p: "p = (x, r1)" by (cases p)
    from sound_scanD[OF assms(1)] Inr p have r1: "length r1 < length cs" by blast
    show ?thesis
    proof (cases "array_next r1")
      case (Inl e)
      with array_next_consumes[of r1] Inr p show ?thesis by auto
    next
      case nx: (Inr q)
      obtain more r2 where q: "q = (more, r2)" by (cases q)
      from array_next_consumes[of r1] nx q have "length r2 < length r1" by simp
      with r1 Suc.prems have "length r2 < m" "length r2 < n" by auto
      from Suc.IH[OF this] Inr p nx q show ?thesis by auto
    qed
  qed
qed

lemma JSONObject_loop_fuel:
  assumes "sound_scan scan" and "fuelled_scan scan n"
  shows "length cs < m \<Longrightarrow> length cs < n \<Longrightarrow> decode_error_only (JSONObject_loop scan m acc cs)"
proof (induction m arbitrary: acc cs)
  case 0
  then show ?case by simp
next
  case (Suc m)
  show ?case
  proof (cases "object_key cs")
    case (Inl e)
    with object_key_consumes[of cs] show ?thesis by auto
  next
    case key: (Inr kr)
    obtain k r0 where kr: "kr = (k, r0)" by (cases kr)
    from object_key_consumes[of cs] key kr have r0: "length r0 < length cs" by simp
    show ?thesis
    proof (cases "scan r0")
      case (Inl e)
      from r0 Suc.prems have "length r0 < n" by simp
      with fuelled_scanD[OF assms(2) this] Inl key kr show ?thesis by auto
    next
      case (Inr p)
      obtain x r1 where p: "p = (x, r1)" by (cases p)
      from sound_scanD[OF assms(1)] Inr p have r1: "length r1 < length r0" by blast
      show ?thesis
      proof (cases "object_next r1")
        case (Inl e)
        with object_next_consumes[of r1] key kr Inr p show ?thesis by auto
      next
        case nx: (Inr q)
        obtain more r2 where q: "q = (more, r2)" by (cases q)
        from object_next_consumes[of r1] nx q have "length r2 < length r1" by simp
        with r0 r1 Suc.prems have "length r2 < m" "length r2 < n" by auto
        from Suc.IH[OF this] key kr Inr p nx q show ?thesis by auto
      qed
    qed
  qed
qed

lemma JSONArray_fuel:
  assumes "sound_scan scan" and "fuelled_scan scan n" and "length cs < n"
  shows "decode_error_only (JSONArray scan n cs)"
proof -
  have "length (skip_ws cs) < n" using skip_ws_length[of cs] assms(3) by simp
  from JSONArray_loop_fuel[OF assms(1,2) this this, of "[]"]
  show ?thesis
    by (auto simp: JSONArray_def split: list.splits)
qed

lemma JSONObject_fuel:
  assumes "sound_scan scan" and "fuelled_scan scan n" and "length cs < n"
  shows "decode_error_only (JSONObject scan n cs)"
proof (cases "skip_ws cs")
  case Nil
  then show ?thesis by (simp add: JSONObject_def)
next
  case (Cons c r)
  from skip_ws_Cons[OF Cons] assms(3) have "length r < n" by simp
  from JSONObject_loop_fuel[OF assms(1,2) this this, of "[]"] Cons
  show ?thesis by (simp add: JSONObject_def)
qed

lemma scan_once_fuel: "fuelled_scan (scan_once F n) n"
proof (induction n)
  case 0
  show ?case by (simp add: fuelled_scan_def)
next
  case (Suc n)
  show ?case
    unfolding fuelled_scan_def
  proof (intro allI impI)
    fix cs :: pystr assume len: "length cs < Suc n"
    show "decode_error_only (scan_once F (Suc n) cs)"
    proof (cases cs)
      case Nil
      then show ?thesis by simp
    next
      case (Cons c cs1)
      with len have l1: "length cs1 < n" by simp
      consider (str) "c = 34" | (obj) "c = 123" | (arr) "c = 91"
        | (lit) "c \<noteq> 34" "c \<noteq> 123" "c \<noteq> 91"
        by blast
      then show ?thesis
      proof cases
        case str
        with Cons consumes_decode_error[OF scan_string_consumes[of cs1]]
        show ?thesis
          by (simp add: chars split del: if_split)
      next
        case obj
        with Cons JSONObject_fuel[OF scan_once_sound Suc l1] show ?thesis
          by (simp add: chars)
      next
        case arr
        with Cons JSONArray_fuel[OF scan_once_sound Suc l1] show ?thesis
          by (simp add: chars)
      next
        case lit
        with Cons consumes_decode_error[OF scan_literal_consumes[of F cs]] show ?thesis
          by (simp add: chars)
      qed
    qed
  qed
qed

text \<open>The budget \<open>json_loads\<close> gives is never used up.\<close>

lemma json_loads_error: "e = JSONDecodeError" if "json_loads F s = Inl e"
proof -
  have "length (skip_ws s) < Suc (length s)" using skip_ws_length[of s] by simp
  from fuelled_scanD[OF scan_once_fuel this, of F] that
  show ?thesis
    by (auto simp: json_loads_def split: sum.splits prod.splits if_splits)
qed

lemma json_loads_fuel: "json_loads F s \<noteq> Inl OutOfFuel"
  using json_loads_error[of F s OutOfFuel] by auto

lemma str_ok_keys: "str_ok (str ''portfolio'')" "str_ok (str ''id'')"
  by (simp_all add: str_def chars is_high_surrogate_def)

lemma reindex_loop_loadable:
  "reindex_loop i items = Inr items' \<Longrightarrow> loadable_list items \<Longrightarrow> loadable_list items'"
proof (induction items arbitrary: i items')
  case Nil
  then show ?case by simp
next
  case (Cons x xs)
  from Cons.prems(1) obtain x' xs' where
    s: "setitem x (str ''id'') (PyInt (int i)) = Inr x'" and
    l: "reindex_loop (Suc i) xs = Inr xs'" and
    r: "items' = x' # xs'"
    by (auto split: sum.splits)
  from s obtain kvs where x: "x = PyDict kvs"
    and x': "x' = PyDict (AList.update (str ''id'') (PyInt (int i)) kvs)"
    by (auto simp: setitem_Inr_iff)
  from Cons.prems(2) x have "loadable x'"
    unfolding x' by (simp add: distinct_update loadable_dict_update str_ok_keys)
  with Cons.IH[OF l] Cons.prems(2) r show ?case by simp
qed

lemma reindex_loadable:
  assumes "reindex data = Inr data'" and "loadable data"
  shows "loadable data'"
proof -
  from assms(1) obtain p items items' where
    g: "getitem data (str ''portfolio'') = Inr p" and
    it: "py_iter p = Inr items" and
    l: "reindex_loop 0 items = Inr items'" and
    w: "data' = write_back data p items'"
    by (auto simp: reindex_def split: sum.splits)
  from g obtain kvs where d: "data = PyDict kvs"
    and m: "map_of kvs (str ''portfolio'') = Some p"
    by (auto simp: getitem_Inr_iff)
  show ?thesis
  proof (cases p)
    case (PyList xs)
    from m have "(str ''portfolio'', p) \<in> set kvs" by (rule map_of_SomeD)
    with assms(2) d PyList have "loadable_list xs" by (auto simp: loadable_dict_iff)
    with reindex_loop_loadable[OF l] it PyList have "loadable (PyList items')" by simp
    with assms(2) d w PyList show ?thesis
      by (simp add: distinct_update loadable_dict_update str_ok_keys)
  qed (use w d assms(2) in auto)
qed

section \<open>The parser and the serialiser on more inputs\<close>

text \<open>Escapes and a surrogate pair, numbers and constants, texts the parser refuses, and
  a repeated key, which keeps its first place and its last value.\<close>

lemma dumps_escapes:
  "json_dumps float_repr0 (PyStr [0xE9, 10, 34, 0x1F600])
     = [34, 92, 117, 48, 48, 101, 57, 92, 110, 92, 34,
        92, 117, 100, 56, 51, 100, 92, 117, 100, 101, 48, 48, 34]"
  by (simp add: dumps_eval replace_pair)

lemma loads_escapes:
  "json_loads float_of_str0
     [34, 92, 117, 48, 48, 101, 57, 92, 110, 92, 34,
      92, 117, 100, 56, 51, 100, 92, 117, 100, 101, 48, 48, 34]
     = Inr (PyStr [0xE9, 10, 34, 0x1F600])"
  by (simp add: loads_eval join_surrogates)

lemma loads_numbers:
  "json_loads float_of_str0 (str ''[-12, 0, 1.5e3, -Infinity]'')
     = Inr (PyList [PyInt (- 12), PyInt 0, PyFloat (Finite ()), PyFloat NegInf])"
  by (simp add: loads_eval float_of_str0_def)

lemma loads_rejects:
  "json_loads float_of_str0 (str ''[1,]'') = Inl JSONDecodeError"
  "json_loads float_of_str0 (str ''01'') = Inl JSONDecodeError"
  "json_loads float_of_str0 (str ''{\"a\": 1} x'') = Inl JSONDecodeError"
  "json_loads float_of_str0 (str ''{\"a\" 1}'') = Inl JSONDecodeError"
  by (simp_all add: loads_eval)

lemma loads_duplicate_key:
  "json_loads float_of_str0 (str ''{\"a\": 1, \"b\": 2, \"a\": 3}'')
     = Inr (PyDict [(str ''a'', PyInt 3), (str ''b'', PyInt 2)])"
  by (simp add: loads_eval)

section \<open>The script: results\<close>

text \<open>Inputs for the examples below, as \<^verbatim>\<open>json.loads\<close> reads them.\<close>

lemma loads_no_portfolio:
  "json_loads float_of_str0 (str ''{\"a\": 1}'') = Inr (PyDict [(str ''a'', PyInt 1)])"
  by (simp add: loads_eval)




lemma loads_empty_object:
  "json_loads float_of_str0 (str ''{\"portfolio\": {}}'')
     = Inr (PyDict [(str ''portfolio'', PyDict [])])"
  by (simp add: loads_eval)

lemma dumps_empty_object:
  "json_dumps float_repr0 (PyDict [(str ''portfolio'', PyDict [])])
     = str ''{\"portfolio\": {}}''"
  by (simp add: dumps_eval)

lemma loads_bad_element:
  "json_loads float_of_str0 (str ''{\"portfolio\": [{\"name\": \"A\"}, \"B\"]}'')
     = Inr (PyDict [(str ''portfolio'',
         PyList [PyDict [(str ''name'', PyStr (str ''A''))], PyStr (str ''B'')])])"
  by (simp add: loads_eval)

lemma loads_empty_list:
  "json_loads float_of_str0 (str ''{\"portfolio\": []}'')
     = Inr (PyDict [(str ''portfolio'', PyList [])])"
  by (simp add: loads_eval)

lemma dumps_empty_list:
  "json_dumps float_repr0 (PyDict [(str ''portfolio'', PyList [])]) = str ''{\"portfolio\": []}''"
  by (simp add: dumps_eval)

text \<open>
  Claim C4. When the file holds a document that is a mapping without the key
  \<^verbatim>\<open>portfolio\<close>, the script ends with \<^verbatim>\<open>KeyError\<close> and the world is as it was: the
  file keeps its content and nothing is printed.
\<close>

theorem C4_main_missing_key:
  assumes "files w (str ''atit.json'') = Some json_data"
    and "json_loads F json_data = Inr (PyDict kvs)"
    and "map_of kvs (str ''portfolio'') = None"
  shows "main F R w = (Inl KeyError, w)"
  using assms by (simp add: main_def reindex_def)

theorem C4_main_missing_key_witness:
  "files (world_of (str ''{\"a\": 1}'')) (str ''atit.json'') = Some (str ''{\"a\": 1}'') \<and>
   json_loads float_of_str0 (str ''{\"a\": 1}'') = Inr (PyDict [(str ''a'', PyInt 1)]) \<and>
   map_of [(str ''a'', PyInt 1 :: unit pyval)] (str ''portfolio'') = None \<and>
   main float_of_str0 float_repr0 (world_of (str ''{\"a\": 1}''))
     = (Inl KeyError, world_of (str ''{\"a\": 1}''))"
proof -
  have f: "files (world_of (str ''{\"a\": 1}'')) (str ''atit.json'') = Some (str ''{\"a\": 1}'')"
    by (simp add: world_of_def)
  have m: "map_of [(str ''a'', PyInt 1 :: unit pyval)] (str ''portfolio'') = None"
    by (simp add: str_def ch_def)
  from C4_main_missing_key[OF f loads_no_portfolio m] f loads_no_portfolio m
  show ?thesis by blast
qed




text \<open>
  Claim C6, as amended. When \<^verbatim>\<open>data['portfolio']\<close> is \<^verbatim>\<open>None\<close>, a boolean, a number,
  a string with a character, a mapping with a key, or a list with an element that is
  not a mapping, the script ends with \<^verbatim>\<open>TypeError\<close> and the world is as it was: the file
  keeps its content and nothing is printed.
\<close>

theorem C6_main_type_error:
  assumes "files w (str ''atit.json'') = Some json_data"
    and "json_loads F json_data = Inr data"
    and "getitem data (str ''portfolio'') = Inr p"
    and "not_reindexable p"
  shows "main F R w = (Inl TypeError, w)"
  using assms by (simp add: main_def reindex_not_reindexable)

theorem C6_main_type_error_witness:
  "files (world_of (str ''{\"portfolio\": [{\"name\": \"A\"}, \"B\"]}'')) (str ''atit.json'')
     = Some (str ''{\"portfolio\": [{\"name\": \"A\"}, \"B\"]}'') \<and>
   json_loads float_of_str0 (str ''{\"portfolio\": [{\"name\": \"A\"}, \"B\"]}'')
     = Inr (PyDict [(str ''portfolio'',
         PyList [PyDict [(str ''name'', PyStr (str ''A''))], PyStr (str ''B'')])]) \<and>
   not_reindexable
     (PyList [PyDict [(str ''name'', PyStr (str ''A''))], PyStr (str ''B'')] :: unit pyval) \<and>
   main float_of_str0 float_repr0 (world_of (str ''{\"portfolio\": [{\"name\": \"A\"}, \"B\"]}''))
     = (Inl TypeError, world_of (str ''{\"portfolio\": [{\"name\": \"A\"}, \"B\"]}''))"
proof -
  let ?t = "str ''{\"portfolio\": [{\"name\": \"A\"}, \"B\"]}''"
  let ?p = "PyList [PyDict [(str ''name'', PyStr (str ''A''))], PyStr (str ''B'')] :: unit pyval"
  have f: "files (world_of ?t) (str ''atit.json'') = Some ?t"
    by (simp add: world_of_def)
  have g: "getitem (PyDict [(str ''portfolio'', ?p)]) (str ''portfolio'') = Inr ?p"
    by simp
  have n: "not_reindexable ?p"
    by simp
  from C6_main_type_error[OF f loads_bad_element g n] f loads_bad_element n
  show ?thesis by blast
qed

text \<open>
  Claim C6 as stated fails: in \<^verbatim>\<open>{"portfolio": {}}\<close> the value of \<^verbatim>\<open>portfolio\<close> is a
  mapping, not a sequence, but the loop over an empty mapping runs no round and the
  script succeeds: it writes the file and prints the text.
\<close>

theorem C6_empty_object_counterexample:
  "fst (main float_of_str0 float_repr0 (world_of (str ''{\"portfolio\": {}}'')))
     = Inr (PyDict [(str ''portfolio'', PyDict [])]) \<and>
   trace (snd (main float_of_str0 float_repr0 (world_of (str ''{\"portfolio\": {}}''))))
     = [FileWrite (str ''atit.json'') (str ''{\"portfolio\": {}}''),
        StdoutWrite (str ''{\"portfolio\": {}}'' @ [10])]"
  by (simp add: world_eval loads_empty_object dumps_empty_object reindex_def)

text \<open>
  Claim C8. On a run that succeeds, the script first writes the text of
  \<^verbatim>\<open>json.dumps(data)\<close> to the file and then that same text, followed by a newline, to
  standard output, and it writes nothing else; the file then holds that text.
\<close>

theorem C8_main_success_output:
  assumes "main F R w = (Inr data, w')"
  shows "trace w' = trace w @ [FileWrite (str ''atit.json'') (json_dumps R data),
                               StdoutWrite (json_dumps R data @ [10])] \<and>
         files w' = (files w)(str ''atit.json'' \<mapsto> json_dumps R data)"
  using assms
  by (auto simp: main_def file_write_def print_def Let_def split: option.splits sum.splits)

theorem C8_main_success_output_witness:
  "main float_of_str0 float_repr0 (world_of example_text)
     = (Inr example_result, snd (main float_of_str0 float_repr0 (world_of example_text))) \<and>
   trace (snd (main float_of_str0 float_repr0 (world_of example_text)))
     = trace (world_of example_text)
         @ [FileWrite (str ''atit.json'') (json_dumps float_repr0 example_result),
            StdoutWrite (json_dumps float_repr0 example_result @ [10])] \<and>
   files (snd (main float_of_str0 float_repr0 (world_of example_text)))
     = (files (world_of example_text))
         (str ''atit.json'' \<mapsto> json_dumps float_repr0 example_result)"
proof -
  have h: "main float_of_str0 float_repr0 (world_of example_text)
     = (Inr example_result, snd (main float_of_str0 float_repr0 (world_of example_text)))"
    using main_example(1) by (simp add: prod_eq_iff)
  from C8_main_success_output[OF h] h show ?thesis by blast
qed

text \<open>
  Claim C9. When the file holds a mapping whose \<^verbatim>\<open>portfolio\<close> is an empty list, the
  transformation returns the document as it is, and the script succeeds with that
  document: it writes its text to the file and then prints it.
\<close>

theorem C9_main_empty_portfolio:
  assumes "files w (str ''atit.json'') = Some json_data"
    and "json_loads F json_data = Inr (PyDict kvs)"
    and "map_of kvs (str ''portfolio'') = Some (PyList [])"
  shows "reindex (PyDict kvs) = Inr (PyDict kvs) \<and>
         fst (main F R w) = Inr (PyDict kvs) \<and>
         trace (snd (main F R w)) =
           trace w @ [FileWrite (str ''atit.json'') (json_dumps R (PyDict kvs)),
                      StdoutWrite (json_dumps R (PyDict kvs) @ [10])] \<and>
         files (snd (main F R w)) = (files w)(str ''atit.json'' \<mapsto> json_dumps R (PyDict kvs))"
  using assms reindex_empty[OF assms(3)]
  by (simp add: main_def file_write_def print_def Let_def)

theorem C9_main_empty_portfolio_witness:
  "files (world_of (str ''{\"portfolio\": []}'')) (str ''atit.json'')
     = Some (str ''{\"portfolio\": []}'') \<and>
   json_loads float_of_str0 (str ''{\"portfolio\": []}'')
     = Inr (PyDict [(str ''portfolio'', PyList [])]) \<and>
   reindex (PyDict [(str ''portfolio'', PyList [])] :: unit pyval)
     = Inr (PyDict [(str ''portfolio'', PyList [])]) \<and>
   fst (main float_of_str0 float_repr0 (world_of (str ''{\"portfolio\": []}'')))
     = Inr (PyDict [(str ''portfolio'', PyList [])]) \<and>
   trace (snd (main float_of_str0 float_repr0 (world_of (str ''{\"portfolio\": []}''))))
     = [FileWrite (str ''atit.json'') (str ''{\"portfolio\": []}''),
        StdoutWrite (str ''{\"portfolio\": []}'' @ [10])]"
proof -
  let ?t = "str ''{\"portfolio\": []}''"
  have f: "files (world_of ?t) (str ''atit.json'') = Some ?t"
    by (simp add: world_of_def)
  have m: "map_of [(str ''portfolio'', PyList [] :: unit pyval)] (str ''portfolio'')
             = Some (PyList [])"
    by simp
  from C9_main_empty_portfolio[OF f loads_empty_list m, of float_repr0] f loads_empty_list
  show ?thesis by (simp add: dumps_empty_list world_of_def)
qed



text \<open>
  Claim C7. Let the floats print as float literals that \<^verbatim>\<open>float\<close> reads back as the
  same float (\<^verbatim>\<open>float(repr(x)) == x\<close>), and let the file hold a text of Unicode scalar
  values that \<^verbatim>\<open>json.loads\<close> accepts. Then for the document that the transformation
  makes of it, \<^verbatim>\<open>json.loads(json.dumps(data))\<close> is that document again.
\<close>

theorem C7_roundtrip:
  assumes "\<forall>x. float_literal (R x)" and "\<forall>x. F (R x) = Finite x"
    and "valid_text json_data"
    and "json_loads F json_data = Inr data0"
    and "reindex data0 = Inr data"
  shows "json_loads F (json_dumps R data) = Inr data"
proof -
  from assms(4,3) have "loadable data0" by (rule json_loads_loadable)
  with assms(5) have "loadable data" by (rule reindex_loadable)
  with assms(1,2) show ?thesis by (rule json_loads_dumps)
qed

theorem C7_roundtrip_witness:
  "(\<forall>x. float_literal (float_repr0 x)) \<and>
   (\<forall>x. float_of_str0 (float_repr0 x) = Finite x) \<and>
   valid_text example_text \<and>
   json_loads float_of_str0 example_text = Inr example_data \<and>
   reindex example_data = Inr example_result \<and>
   json_loads float_of_str0 (json_dumps float_repr0 example_result) = Inr example_result"
proof -
  have 1: "\<forall>x. float_literal (float_repr0 x)"
    by (simp add: float_literal_def float_repr0_def loads_eval)
  have 2: "\<forall>x. float_of_str0 (float_repr0 x) = Finite x"
    by (simp add: float_of_str0_def)
  have 3: "valid_text example_text"
    by (simp add: valid_text_def scalar_value_def example_text_def str_def ch_def)
  from C7_roundtrip[OF 1 2 3 loads_example reindex_example] 1 2 3 loads_example reindex_example
  show ?thesis by blast
qed

text \<open>The same for the file: after a run that succeeds, the file holds a text that
  \<^verbatim>\<open>json.loads\<close> reads as the document the run ended with.\<close>

lemma main_file_roundtrip:
  assumes "\<forall>x. float_literal (R x)" and "\<forall>x. F (R x) = Finite x"
    and "files w (str ''atit.json'') = Some json_data"
    and "valid_text json_data"
    and "main F R w = (Inr data, w')"
  shows "\<exists>text. files w' (str ''atit.json'') = Some text \<and> json_loads F text = Inr data"
proof -
  from assms(3,5) obtain data0 where l: "json_loads F json_data = Inr data0"
    and r: "reindex data0 = Inr data"
    and w': "files w' (str ''atit.json'') = Some (json_dumps R data)"
    by (auto simp: main_def file_write_def print_def Let_def split: sum.splits)
  have "loadable data0" using l assms(4) by (rule json_loads_loadable)
  with r have "loadable data" by (rule reindex_loadable)
  with assms(1,2) have "json_loads F (json_dumps R data) = Inr data"
    by (rule json_loads_dumps)
  with w' show ?thesis by blast
qed

end
